theory Spec2Isabelle
  imports Main "HOL-Library.Word"
begin

section \<open>Device list parsing\<close>

text \<open>
  \<^verbatim>\<open>std::isspace\<close> on an \<^verbatim>\<open>unsigned char\<close>. The program never calls \<^verbatim>\<open>setlocale\<close>, so
  the "C" locale is in force: space, horizontal tab, line feed, vertical tab, form feed
  and carriage return.
\<close>

definition isspace :: "char \<Rightarrow> bool" where
  "isspace ch = (ch \<in> set [CHR '' '', CHR 0x09, CHR 0x0A, CHR 0x0B, CHR 0x0C, CHR 0x0D])"

text \<open>
  \<^verbatim>\<open>s.erase(s.begin(), find_if(s.begin(), s.end(), not isspace))\<close>: everything before the
  first character that is not a space goes.
\<close>

definition lstrip_spaces_inplace :: "string \<Rightarrow> string" where
  "lstrip_spaces_inplace s = (if length s = 0 then s else dropWhile isspace s)"

text \<open>
  \<^verbatim>\<open>s.erase(find_if(s.rbegin(), s.rend(), not isspace).base(), s.end())\<close>: the search runs
  from the back, and everything after the last character that is not a space goes.
\<close>

definition rstrip_spaces_inplace :: "string \<Rightarrow> string" where
  "rstrip_spaces_inplace s = (if length s = 0 then s else rev (dropWhile isspace (rev s)))"

definition strip_spaces_inplace :: "string \<Rightarrow> string" where
  "strip_spaces_inplace s =
     (if length s = 0 then s else rstrip_spaces_inplace (lstrip_spaces_inplace s))"

text \<open>
  \<^verbatim>\<open>adb_devices_output | std::views::split('/')\<close>. A delimiter closes the current segment
  and opens the next one, so a string with \<open>k\<close> delimiters has \<open>k + 1\<close> segments, empty
  ones included; the split of the empty string has no segment at all.
\<close>

fun split_segments :: "char \<Rightarrow> string \<Rightarrow> string list" where
  "split_segments d [] = [[]]"
| "split_segments d (c # cs) =
     (if c = d then [] # split_segments d cs
      else (case split_segments d cs of
              [] \<Rightarrow> [[c]]
            | w # ws \<Rightarrow> (c # w) # ws))"

definition split_view :: "char \<Rightarrow> string \<Rightarrow> string list" where
  "split_view d s = (if s = [] then [] else split_segments d s)"

text \<open>The inverse of splitting, used to say what a split is: the segments joined by the delimiter.\<close>

fun join_segments :: "char \<Rightarrow> string list \<Rightarrow> string" where
  "join_segments d [] = []"
| "join_segments d [w] = w"
| "join_segments d (w # v # ws) = w @ d # join_segments d (v # ws)"

subsection \<open>Device records and the flag store\<close>

text \<open>
  \<^verbatim>\<open>struct DeviceInfo { std::string name; std::unique_ptr<std::atomic<bool>> done; }\<close>.
  The flag lives on the heap, the record owns a pointer to it. The heap of flags is a list
  of booleans and a pointer is an index into it; \<^verbatim>\<open>done\<close> is a keyword of Isabelle, so the
  field is called \<open>done_p\<close>.
\<close>

record DeviceInfo =
  name :: string
  done_p :: nat

type_synonym heap = "bool list"

text \<open>\<^verbatim>\<open>std::make_unique<std::atomic<bool>>(v)\<close>: a fresh cell holding \<open>v\<close>.\<close>

definition make_unique :: "bool \<Rightarrow> heap \<Rightarrow> nat \<times> heap" where
  "make_unique v h = (length h, h @ [v])"

text \<open>The body of the \<^verbatim>\<open>for (auto &&st : strs)\<close> loop of \<^verbatim>\<open>get_devices\<close>, over the segments.\<close>

fun get_devices_loop :: "string list \<Rightarrow> DeviceInfo list \<Rightarrow> heap \<Rightarrow> DeviceInfo list \<times> heap" where
  "get_devices_loop [] results h = (results, h)"
| "get_devices_loop (st # strs) results h =
     (let s = strip_spaces_inplace st in
      if length s > 0
      then (let (p, h') = make_unique True h
            in get_devices_loop strs (results @ [\<lparr>name = s, done_p = p\<rparr>]) h')
      else get_devices_loop strs results h)"

definition get_devices :: "string \<Rightarrow> heap \<Rightarrow> DeviceInfo list \<times> heap" where
  "get_devices adb_devices_output h =
     get_devices_loop (split_view CHR ''/'' adb_devices_output) [] h"

section \<open>Workers\<close>

text \<open>
  What the program does to the world, in the order it does it: an atomic store to a flag,
  a call of \<^verbatim>\<open>system\<close> that has returned (with the status it returned), text written
  to a standard stream, the start of a thread bound to a record, and a call of
  \<^verbatim>\<open>usleep\<close> with its 32-bit argument.
\<close>

datatype event =
    Store nat bool
  | System_call string int
  | Stdout string
  | Stderr string
  | Thread_start DeviceInfo
  | Usleep "32 word"

definition connect_cmd :: "string \<Rightarrow> DeviceInfo \<Rightarrow> string" where
  "connect_cmd adb stru = adb @ '' connect '' @ name stru"

definition run_server :: "string \<Rightarrow> DeviceInfo \<Rightarrow> string" where
  "run_server adb stru =
     adb @ '' -s '' @ name stru @
       ('' shell am instrument -w -r -e debug false -e class com.github.uiautomator.stub.Stub '' @
        ''com.github.uiautomator.test/androidx.test.runner.AndroidJUnitRunner'')"

text \<open>
  The statements of \<^verbatim>\<open>systemthread\<close>, one point before each: the store of
  \<^verbatim>\<open>false\<close>, the two calls of \<^verbatim>\<open>system\<close>, the store of \<^verbatim>\<open>true\<close>, and the return.
\<close>

datatype worker_point =
    At_store_false
  | At_system_connect
  | At_system_run_server
  | At_store_true
  | Returned

text \<open>
  One statement of a worker. \<open>rc\<close> is the status the external command returns when the
  statement is a call of \<^verbatim>\<open>system\<close>; the code drops it. A worker that has returned has
  no step.
\<close>

fun worker_step ::
  "string \<Rightarrow> DeviceInfo \<Rightarrow> int \<Rightarrow> worker_point \<Rightarrow> heap \<Rightarrow> (event \<times> worker_point \<times> heap) option"
where
  "worker_step adb stru rc At_store_false h =
     Some (Store (done_p stru) False, At_system_connect, h[done_p stru := False])"
| "worker_step adb stru rc At_system_connect h =
     Some (System_call (connect_cmd adb stru) rc, At_system_run_server, h)"
| "worker_step adb stru rc At_system_run_server h =
     Some (System_call (run_server adb stru) rc, At_store_true, h)"
| "worker_step adb stru rc At_store_true h =
     Some (Store (done_p stru) True, Returned, h[done_p stru := True])"
| "worker_step adb stru rc Returned h = None"

fun calls_system :: "worker_point \<Rightarrow> bool" where
  "calls_system At_system_connect = True"
| "calls_system At_system_run_server = True"
| "calls_system _ = False"

fun statements_left :: "worker_point \<Rightarrow> nat" where
  "statements_left At_store_false = 4"
| "statements_left At_system_connect = 3"
| "statements_left At_system_run_server = 2"
| "statements_left At_store_true = 1"
| "statements_left Returned = 0"

lemma worker_step_statements_left:
  "worker_step adb stru rc p h = Some (e, p', h') \<Longrightarrow> statements_left p' < statements_left p"
  by (cases p) auto

text \<open>
  \<^verbatim>\<open>systemthread\<close> run by one thread on its own, from point \<open>p\<close>. \<^verbatim>\<open>system\<close> blocks
  until the external process exits: \<open>rets\<close> lists the statuses of the commands that do
  exit, in order, and when it is used up the pending call never returns and the worker
  stays where it is. The result is the events, the point reached and the heap.
\<close>

function systemthread ::
  "string \<Rightarrow> DeviceInfo \<Rightarrow> int list \<Rightarrow> worker_point \<Rightarrow> heap \<Rightarrow> event list \<times> worker_point \<times> heap"
where
  "systemthread adb stru rets p h =
     (if calls_system p \<and> rets = [] then ([], p, h)
      else (case worker_step adb stru (case rets of [] \<Rightarrow> 0 | rc # _ \<Rightarrow> rc) p h of
              None \<Rightarrow> ([], p, h)
            | Some (e, p', h') \<Rightarrow>
                (case systemthread adb stru (if calls_system p then tl rets else rets) p' h' of
                   (es, q, h'') \<Rightarrow> (e # es, q, h''))))"
  by pat_completeness auto
termination
  by (relation "measure (\<lambda>(adb, stru, rets, p, h). statements_left p)")
     (auto simp: worker_step_statements_left)

declare systemthread.simps [simp del]

section \<open>The supervisor loop\<close>

text \<open>\<^verbatim>\<open>std::cout << b\<close> for a \<^verbatim>\<open>bool\<close>, \<^verbatim>\<open>boolalpha\<close> never set.\<close>

definition show_bool :: "bool \<Rightarrow> string" where
  "show_bool b = (if b then ''1'' else ''0'')"

text \<open>
  \<^verbatim>\<open>sleepcp\<close> on a build without \<^verbatim>\<open>_WIN32\<close>: \<^verbatim>\<open>usleep(milliseconds * 1000)\<close>, the product
  taken in \<^verbatim>\<open>int\<close>, a 32-bit type. A product outside \<^verbatim>\<open>int\<close> is undefined in C++; the
  model wraps it around modulo \<open>2^32\<close>, and \<open>sint\<close> reads the result as the \<^verbatim>\<open>int\<close> it is.
\<close>

definition sleepcp :: "32 word \<Rightarrow> event list" where
  "sleepcp milliseconds = [Usleep (milliseconds * 1000)]"

text \<open>
  Where the main thread stands in \<^verbatim>\<open>while (1) { for (auto &d : devices) { ... } sleepcp(...); }\<close>:
  at the head of the \<^verbatim>\<open>for\<close> with the records still to visit, or at the \<^verbatim>\<open>if (*d.done)\<close>
  of record \<open>d\<close> with the records after it. There is no point after the \<^verbatim>\<open>while\<close>.
\<close>

datatype main_point =
    At_for "DeviceInfo list"
  | At_if DeviceInfo "DeviceInfo list"

text \<open>
  One step of the main thread against the heap \<open>h\<close> of the moment. At the head of the
  \<^verbatim>\<open>for\<close> with a record left: the two output statements, which load the flag once. At the
  \<^verbatim>\<open>if\<close>: a second load of the flag, and the thread start when it reads true. At the head
  with no record left: \<^verbatim>\<open>sleepcp(sleep_time)\<close>, and the \<^verbatim>\<open>while\<close> starts the next scan.
  Writing to \<^verbatim>\<open>std::cout\<close> and starting a thread are taken to succeed.
\<close>

fun main_step :: "32 word \<Rightarrow> DeviceInfo list \<Rightarrow> heap \<Rightarrow> main_point \<Rightarrow> event list \<times> main_point" where
  "main_step t devs h (At_for (d # ds)) =
     ([Stdout (name d @ [CHR 0x09]), Stdout (show_bool (h ! done_p d) @ [CHR 0x0A])], At_if d ds)"
| "main_step t devs h (At_if d ds) =
     ((if h ! done_p d then [Thread_start d] else []), At_for ds)"
| "main_step t devs h (At_for []) = (sleepcp t, At_for devs)"

text \<open>
  The main thread alone, one step per heap of the list: the list is what the flags hold
  each time the main thread looks, whatever the workers have done to them in between.
\<close>

fun main_exec :: "32 word \<Rightarrow> DeviceInfo list \<Rightarrow> heap list \<Rightarrow> main_point \<Rightarrow> event list \<times> main_point" where
  "main_exec t devs [] p = ([], p)"
| "main_exec t devs (h # hs) p =
     (case main_step t devs h p of
        (es, p') \<Rightarrow> (case main_exec t devs hs p' of (es', q) \<Rightarrow> (es @ es', q)))"

fun started :: "event list \<Rightarrow> DeviceInfo list" where
  "started [] = []"
| "started (Thread_start d # es) = d # started es"
| "started (e # es) = started es"

fun stdout_text :: "event list \<Rightarrow> string" where
  "stdout_text [] = []"
| "stdout_text (Stdout s # es) = s @ stdout_text es"
| "stdout_text (e # es) = stdout_text es"

fun stderr_text :: "event list \<Rightarrow> string" where
  "stderr_text [] = []"
| "stderr_text (Stderr s # es) = s @ stderr_text es"
| "stderr_text (e # es) = stderr_text es"

fun system_calls :: "event list \<Rightarrow> string list" where
  "system_calls [] = []"
| "system_calls (System_call cmd rc # es) = cmd # system_calls es"
| "system_calls (e # es) = system_calls es"

section \<open>The process\<close>

text \<open>
  The state all threads share: the global \<^verbatim>\<open>adb_exe\<close>, the locals of \<^verbatim>\<open>main\<close>
  (\<^verbatim>\<open>sleep_time\<close>, \<^verbatim>\<open>devices\<close>, \<^verbatim>\<open>allthreads\<close>, each thread with the record it is bound to
  and the point it has reached), the heap of flags, and the point of the main thread.
\<close>

record process =
  adb_exe :: string
  sleep_time :: "32 word"
  devices :: "DeviceInfo list"
  flags :: heap
  main_at :: main_point
  allthreads :: "(DeviceInfo \<times> worker_point) list"

text \<open>
  The threads interleave: a step of the process is a step of the main thread or a step of
  one worker. The only shared objects that change are the flags, each a
  \<^verbatim>\<open>std::atomic<bool>\<close> read and written with the default sequentially consistent order,
  and every step makes at most one such access. Nothing orders the steps of different
  threads, and a thread that is started makes its first step whenever it is scheduled.
\<close>

inductive step :: "process \<Rightarrow> process \<Rightarrow> bool" where
  main_thread:
    "main_step (sleep_time s) (devices s) (flags s) (main_at s) = (es, p') \<Longrightarrow>
     step s (s\<lparr>main_at := p', allthreads := allthreads s @ map (\<lambda>d. (d, At_store_false)) (started es)\<rparr>)"
| worker_thread:
    "k < length (allthreads s) \<Longrightarrow> allthreads s ! k = (d, p) \<Longrightarrow>
     worker_step (adb_exe s) d rc p (flags s) = Some (e, p', h') \<Longrightarrow>
     step s (s\<lparr>flags := h', allthreads := (allthreads s)[k := (d, p')]\<rparr>)"

section \<open>Start-up\<close>

definition isdigit :: "char \<Rightarrow> bool" where
  "isdigit ch = (48 \<le> (of_char ch :: nat) \<and> (of_char ch :: nat) \<le> 57)"

definition digit_value :: "char \<Rightarrow> int" where
  "digit_value ch = of_char ch - 48"

definition INT_MAX :: int where
  "INT_MAX = 2147483647"

definition INT_MIN :: int where
  "INT_MIN = - 2147483648"

text \<open>
  \<^verbatim>\<open>atoi\<close> is the C library's, not the program's; ISO C defines it as \<^verbatim>\<open>strtol\<close> in base
  10 converted to \<^verbatim>\<open>int\<close>: the leading white space is skipped, then an optional sign and
  the longest run of decimal digits are converted, and whatever follows is ignored. With
  no digit there the result is 0. A value that \<^verbatim>\<open>int\<close> cannot hold is undefined
  behaviour: \<open>None\<close>.
\<close>

definition atoi :: "string \<Rightarrow> int option" where
  "atoi nptr =
     (let s = dropWhile isspace nptr;
          negative = (s \<noteq> [] \<and> hd s = CHR ''-'');
          signed = (s \<noteq> [] \<and> (hd s = CHR ''-'' \<or> hd s = CHR ''+''));
          ds = takeWhile isdigit (if signed then tl s else s);
          v = foldl (\<lambda>acc ch. 10 * acc + digit_value ch) 0 ds;
          r = (if negative then - v else v)
      in if INT_MIN \<le> r \<and> r \<le> INT_MAX then Some r else None)"

text \<open>\<^verbatim>\<open>EXIT_FAILURE\<close> of \<^verbatim>\<open><cstdlib>\<close>, 1 on the platforms the program builds on.\<close>

definition EXIT_FAILURE :: int where
  "EXIT_FAILURE = 1"

text \<open>
  How \<^verbatim>\<open>main\<close> ends its start-up: it has called \<^verbatim>\<open>exit\<close> with a status, or its behaviour
  is undefined, or it stands at the head of the first scan with the process set up. The
  events are what it has written by then.
\<close>

datatype outcome =
    Exit int "event list"
  | Undefined_behaviour
  | Running "event list" process

fun written :: "outcome \<Rightarrow> event list" where
  "written (Exit c es) = es"
| "written Undefined_behaviour = []"
| "written (Running es s) = es"

text \<open>
  \<^verbatim>\<open>main\<close> up to the \<^verbatim>\<open>while (1)\<close>. \<open>argv0\<close> is \<^verbatim>\<open>argv[0]\<close> and \<open>args\<close> are the arguments
  after it, so \<^verbatim>\<open>argc\<close> is \<open>Suc (length args)\<close> and \<^verbatim>\<open>argv[i]\<close> is \<open>args ! (i - 1)\<close>.
\<close>

definition main :: "string \<Rightarrow> string list \<Rightarrow> outcome" where
  "main argv0 args =
     (if Suc (length args) < 4 then
        Exit EXIT_FAILURE
          [Stderr (''Usage: '' @ argv0 @
                   ''adbpath sleeptime ADBDEVICE/ADBDEVICE1/ADBDEVICE2 ...\<newline>''),
           Stderr (''Example: '' @ argv0 @
                   ''adb.exe 5000 127.0.0.1:5555/127.0.0.1:5570/127.0.0.1:5585/127.0.0.1:5590/127.0.0.1:5595\<newline>'')]
      else
        (case atoi (args ! 1) of
           None \<Rightarrow> Undefined_behaviour
         | Some t \<Rightarrow>
             (case get_devices (args ! 2) [] of
                (devs, h) \<Rightarrow>
                  Running [Stdout ''Devices:\<newline>'']
                    \<lparr>adb_exe = [] @ args ! 0, sleep_time = word_of_int t, devices = devs,
                     flags = h, main_at = At_for devs, allthreads = []\<rparr>)))"

section \<open>What the specification says, for comparison\<close>

text \<open>
  The interval as the specification words it: a base-10 integer, decoded to its exact
  value when the string is a valid number in the range of \<^verbatim>\<open>int\<close>, and to 0 for every
  other string. A valid number is an optional sign and one or more decimal digits.
\<close>

definition spec_digits :: "string \<Rightarrow> string" where
  "spec_digits s = (if s \<noteq> [] \<and> (hd s = CHR ''-'' \<or> hd s = CHR ''+'') then tl s else s)"

definition spec_valid_number :: "string \<Rightarrow> bool" where
  "spec_valid_number s = (spec_digits s \<noteq> [] \<and> list_all isdigit (spec_digits s))"

definition spec_number_value :: "string \<Rightarrow> int" where
  "spec_number_value s =
     (if s \<noteq> [] \<and> hd s = CHR ''-'' then - 1 else 1)
       * horner_sum digit_value 10 (rev (spec_digits s))"

definition spec_interval :: "string \<Rightarrow> int" where
  "spec_interval s =
     (if spec_valid_number s \<and> INT_MIN \<le> spec_number_value s \<and> spec_number_value s \<le> INT_MAX
      then spec_number_value s else 0)"

text \<open>The lines of a text: its pieces that a line feed ends.\<close>

definition lines_of :: "string \<Rightarrow> string list" where
  "lines_of text = butlast (split_segments CHR 0x0A text)"

definition is_example_line :: "string \<Rightarrow> bool" where
  "is_example_line l = (take 9 l = ''Example: '')"

text \<open>
  One scan as the specification words it: for every record in table order a line with the
  name and the flag, and a worker started when the flag reads idle; then the suspension.
  \<open>reads\<close> gives, for each record, the heap at the output and the heap at the test.
\<close>

definition spec_scan_record :: "DeviceInfo \<times> heap \<times> heap \<Rightarrow> event list" where
  "spec_scan_record x =
     (case x of (d, h1, h2) \<Rightarrow>
        [Stdout (name d @ [CHR 0x09]), Stdout (show_bool (h1 ! done_p d) @ [CHR 0x0A])]
        @ (if h2 ! done_p d then [Thread_start d] else []))"

definition spec_iteration :: "32 word \<Rightarrow> DeviceInfo list \<Rightarrow> (heap \<times> heap) list \<Rightarrow> event list" where
  "spec_iteration t devs reads =
     concat (map spec_scan_record (zip devs reads)) @ [Usleep (t * 1000)]"

text \<open>The heaps the main thread looks at during one scan, in the order it looks.\<close>

definition heaps_seen :: "(heap \<times> heap) list \<times> heap \<Rightarrow> heap list" where
  "heaps_seen x = (case x of (reads, hz) \<Rightarrow> concat (map (\<lambda>(h1, h2). [h1, h2]) reads) @ [hz])"

section \<open>Properties of the parser\<close>

lemma split_segments_not_Nil: "split_segments d s \<noteq> []"
  by (induction s) (auto split: list.splits)

lemma join_split_segments: "join_segments d (split_segments d s) = s"
proof (induction s)
  case Nil
  show ?case by simp
next
  case (Cons c cs)
  obtain w ws where ws: "split_segments d cs = w # ws"
    using split_segments_not_Nil [of d cs] by (cases "split_segments d cs") auto
  show ?case
  proof (cases "c = d")
    case True
    with Cons ws show ?thesis by simp
  next
    case False
    with Cons ws show ?thesis by (cases ws) auto
  qed
qed

lemma split_segments_no_delimiter: "seg \<in> set (split_segments d s) \<Longrightarrow> d \<notin> set seg"
proof (induction s arbitrary: seg)
  case Nil
  then show ?case by simp
next
  case (Cons c cs)
  then show ?case
    by (cases "split_segments d cs") (auto split: if_splits)
qed

lemma strip_spaces_inplace_eq:
  "strip_spaces_inplace s = rev (dropWhile isspace (rev (dropWhile isspace s)))"
proof (cases "dropWhile isspace s = []")
  case True
  then show ?thesis
    by (simp add: strip_spaces_inplace_def rstrip_spaces_inplace_def lstrip_spaces_inplace_def
        del: dropWhile_eq_Nil_conv)
next
  case False
  then have "s \<noteq> []" by auto
  with False show ?thesis
    by (simp add: strip_spaces_inplace_def rstrip_spaces_inplace_def lstrip_spaces_inplace_def
        del: dropWhile_eq_Nil_conv)
qed

lemma strip_spaces_inplace_decomp:
  "s = takeWhile isspace s @ strip_spaces_inplace s
         @ rev (takeWhile isspace (rev (dropWhile isspace s)))"
proof -
  let ?t = "dropWhile isspace s"
  have "rev ?t = takeWhile isspace (rev ?t) @ dropWhile isspace (rev ?t)"
    by simp
  then have "rev (rev ?t) = rev (takeWhile isspace (rev ?t) @ dropWhile isspace (rev ?t))"
    by simp
  then have "?t = rev (dropWhile isspace (rev ?t)) @ rev (takeWhile isspace (rev ?t))"
    by (simp only: rev_rev_ident rev_append)
  moreover have "s = takeWhile isspace s @ ?t"
    by simp
  ultimately show ?thesis
    by (simp add: strip_spaces_inplace_eq)
qed

lemma strip_spaces_inplace_last:
  assumes "strip_spaces_inplace s \<noteq> []"
  shows "\<not> isspace (last (strip_spaces_inplace s))"
proof -
  let ?u = "dropWhile isspace (rev (dropWhile isspace s))"
  from assms have "?u \<noteq> []"
    by (simp add: strip_spaces_inplace_eq)
  then have "\<not> isspace (hd ?u)"
    by (rule hd_dropWhile)
  moreover have "last (rev ?u) = hd ?u"
    using \<open>?u \<noteq> []\<close> by (simp add: last_rev)
  ultimately show ?thesis
    by (simp add: strip_spaces_inplace_eq)
qed

lemma strip_spaces_inplace_hd:
  assumes "strip_spaces_inplace s \<noteq> []"
  shows "\<not> isspace (hd (strip_spaces_inplace s))"
proof -
  let ?t = "dropWhile isspace s"
  have t: "?t \<noteq> []"
  proof
    assume "?t = []"
    then have "strip_spaces_inplace s = []"
      by (simp only: strip_spaces_inplace_eq rev.simps dropWhile.simps)
    with assms show False by simp
  qed
  have "?t = strip_spaces_inplace s @ rev (takeWhile isspace (rev ?t))"
    using strip_spaces_inplace_decomp [of s] by (metis same_append_eq takeWhile_dropWhile_id)
  with assms have "hd ?t = hd (strip_spaces_inplace s)"
    by (metis hd_append2)
  moreover have "\<not> isspace (hd ?t)"
    using t by (rule hd_dropWhile)
  ultimately show ?thesis by simp
qed

lemma get_devices_loop_names:
  "map name (fst (get_devices_loop strs results h)) =
     map name results @ filter (\<lambda>t. t \<noteq> []) (map strip_spaces_inplace strs)"
  by (induction strs arbitrary: results h) (auto simp: Let_def make_unique_def)

lemma join_split_view: "join_segments d (split_view d s) = s"
  by (simp add: split_view_def join_split_segments)

lemma split_view_no_delimiter: "seg \<in> set (split_view d s) \<Longrightarrow> d \<notin> set seg"
  by (auto simp: split_view_def dest: split_segments_no_delimiter split: if_splits)

lemma get_devices_names:
  "map name (fst (get_devices s h)) =
     filter (\<lambda>w. w \<noteq> []) (map strip_spaces_inplace (split_view CHR ''/'' s))"
  by (simp add: get_devices_def get_devices_loop_names)

lemma strip_spaces_inplace_around:
  "\<exists>l r. seg = l @ strip_spaces_inplace seg @ r \<and> list_all isspace l \<and> list_all isspace r"
proof (intro exI conjI)
  show "seg = takeWhile isspace seg @ strip_spaces_inplace seg
                @ rev (takeWhile isspace (rev (dropWhile isspace seg)))"
    by (rule strip_spaces_inplace_decomp)
  show "list_all isspace (takeWhile isspace seg)"
    by (auto simp: list_all_iff dest: set_takeWhileD)
  show "list_all isspace (rev (takeWhile isspace (rev (dropWhile isspace seg))))"
    by (auto simp: list_all_iff dest: set_takeWhileD)
qed

lemma get_devices_name_trimmed:
  assumes "d \<in> set (fst (get_devices s h))"
  shows "name d \<noteq> [] \<and> \<not> isspace (hd (name d)) \<and> \<not> isspace (last (name d))"
proof -
  from assms have "name d \<in> set (map name (fst (get_devices s h)))"
    by simp
  then obtain seg where seg: "name d = strip_spaces_inplace seg" and ne: "name d \<noteq> []"
    unfolding get_devices_names by auto
  from seg ne have "strip_spaces_inplace seg \<noteq> []"
    by simp
  then have "\<not> isspace (hd (strip_spaces_inplace seg))"
    and "\<not> isspace (last (strip_spaces_inplace seg))"
    by (rule strip_spaces_inplace_hd, rule strip_spaces_inplace_last)
  with seg ne show ?thesis by simp
qed

lemma get_devices_example1: "map name (fst (get_devices '' a /b/ /c '' h)) = [''a'', ''b'', ''c'']"
  by (simp add: get_devices_names split_view_def strip_spaces_inplace_eq isspace_def)

lemma get_devices_example2: "map name (fst (get_devices ''/'' h)) = []"
  by (simp add: get_devices_names split_view_def strip_spaces_inplace_eq isspace_def)

text \<open>
  C3. The parser splits its input at every \<open>/\<close> (joining the segments with \<open>/\<close> gives the
  input back, and no segment holds a \<open>/\<close>), strips each segment (a segment is its
  stripped form between a run of white space on the left and one on the right, so nothing
  inside is touched), drops the segments that are empty after stripping and keeps the
  others in their order. Every name that results is non-empty and neither begins nor ends
  with white space. The result is a function of the input. The two examples of the
  specification come out as stated.
\<close>

theorem get_devices_parses:
  "map name (fst (get_devices s h)) =
     filter (\<lambda>w. w \<noteq> []) (map strip_spaces_inplace (split_view CHR ''/'' s))
   \<and> join_segments CHR ''/'' (split_view CHR ''/'' s) = s
   \<and> (\<forall>seg \<in> set (split_view CHR ''/'' s). CHR ''/'' \<notin> set seg)
   \<and> (\<forall>seg. \<exists>l r. seg = l @ strip_spaces_inplace seg @ r
                    \<and> list_all isspace l \<and> list_all isspace r)
   \<and> (\<forall>d \<in> set (fst (get_devices s h)).
         name d \<noteq> [] \<and> \<not> isspace (hd (name d)) \<and> \<not> isspace (last (name d)))
   \<and> map name (fst (get_devices '' a /b/ /c '' h)) = [''a'', ''b'', ''c'']
   \<and> map name (fst (get_devices ''/'' h)) = []"
proof (intro conjI ballI allI)
  show "map name (fst (get_devices s h)) =
          filter (\<lambda>w. w \<noteq> []) (map strip_spaces_inplace (split_view CHR ''/'' s))"
    by (rule get_devices_names)
  show "join_segments CHR ''/'' (split_view CHR ''/'' s) = s"
    by (rule join_split_view)
  show "CHR ''/'' \<notin> set seg" if "seg \<in> set (split_view CHR ''/'' s)" for seg
    using that by (rule split_view_no_delimiter)
  show "\<exists>l r. seg = l @ strip_spaces_inplace seg @ r \<and> list_all isspace l \<and> list_all isspace r"
    for seg
    by (rule strip_spaces_inplace_around)
  show "name d \<noteq> []" "\<not> isspace (hd (name d))" "\<not> isspace (last (name d))"
    if "d \<in> set (fst (get_devices s h))" for d
    using get_devices_name_trimmed [OF that] by simp_all
  show "map name (fst (get_devices '' a /b/ /c '' h)) = [''a'', ''b'', ''c'']"
    by (rule get_devices_example1)
  show "map name (fst (get_devices ''/'' h)) = []"
    by (rule get_devices_example2)
qed

theorem get_devices_parses_witness:
  "map name (fst (get_devices ''x y / z'' [])) = [''x y'', ''z'']
   \<and> CHR ''/'' \<notin> set ''x y ''
   \<and> \<not> isspace (hd ''x y'') \<and> \<not> isspace (last ''x y'')"
proof -
  note t = get_devices_parses [of "''x y / z''" "[]"]
  have seg: "''x y '' \<in> set (split_view CHR ''/'' ''x y / z'')"
    by (simp add: split_view_def)
  have dev: "\<lparr>name = ''x y'', done_p = 0\<rparr> \<in> set (fst (get_devices ''x y / z'' []))"
    by (simp add: get_devices_def split_view_def strip_spaces_inplace_eq isspace_def
        make_unique_def)
  have names: "filter (\<lambda>w. w \<noteq> []) (map strip_spaces_inplace (split_view CHR ''/'' ''x y / z''))
                 = [''x y'', ''z'']"
    by (simp add: split_view_def strip_spaces_inplace_eq isspace_def)
  from t names have "map name (fst (get_devices ''x y / z'' [])) = [''x y'', ''z'']"
    by simp
  moreover from t seg have "CHR ''/'' \<notin> set ''x y ''"
    by blast
  moreover from t dev
  have "\<not> isspace (hd (name \<lparr>name = ''x y'', done_p = 0\<rparr>))
        \<and> \<not> isspace (last (name \<lparr>name = ''x y'', done_p = 0\<rparr>))"
    by blast
  ultimately show ?thesis by simp
qed

section \<open>The device table\<close>

lemma get_devices_loop_eq:
  "get_devices_loop strs results h =
     (results @ map (\<lambda>(a, n). \<lparr>name = n, done_p = a\<rparr>)
                  (enumerate (length h) (filter (\<lambda>w. w \<noteq> []) (map strip_spaces_inplace strs))),
      h @ replicate (length (filter (\<lambda>w. w \<noteq> []) (map strip_spaces_inplace strs))) True)"
  by (induction strs arbitrary: results h) (simp_all add: Let_def make_unique_def)

lemma get_devices_done_p:
  "map done_p (fst (get_devices s [])) = [0..<length (fst (get_devices s []))]"
proof -
  have "done_p \<circ> (\<lambda>(a, n). \<lparr>name = n, done_p = a\<rparr>) = fst"
    by (auto simp: fun_eq_iff)
  then show ?thesis
    by (simp add: get_devices_def get_devices_loop_eq)
qed

lemma get_devices_flags:
  "snd (get_devices s []) = replicate (length (fst (get_devices s []))) True"
  by (simp add: get_devices_def get_devices_loop_eq)

lemma main_RunningE:
  assumes "main argv0 args = Running evs s0"
  obtains t where "4 \<le> Suc (length args)" and "atoi (args ! 1) = Some t"
    and "evs = [Stdout ''Devices:\<newline>'']"
    and "s0 = \<lparr>adb_exe = args ! 0, sleep_time = word_of_int t,
               devices = fst (get_devices (args ! 2) []),
               flags = snd (get_devices (args ! 2) []),
               main_at = At_for (fst (get_devices (args ! 2) [])), allthreads = []\<rparr>"
  using assms by (auto simp: main_def split: if_splits option.splits prod.splits)

lemma worker_step_length:
  "worker_step adb d rc p h = Some (e, p', h') \<Longrightarrow> length h' = length h"
  by (cases p) auto

lemma step_keeps_table:
  assumes "step s s'"
  shows "devices s' = devices s \<and> length (flags s') = length (flags s)
         \<and> adb_exe s' = adb_exe s \<and> sleep_time s' = sleep_time s"
  using assms by (induction rule: step.induct) (auto dest: worker_step_length)

lemma steps_keep_table:
  assumes "step\<^sup>*\<^sup>* s s'"
  shows "devices s' = devices s \<and> length (flags s') = length (flags s)
         \<and> adb_exe s' = adb_exe s \<and> sleep_time s' = sleep_time s"
  using assms by (induction rule: rtranclp_induct) (auto dest: step_keeps_table)


text \<open>
  C4. When start-up reaches the loop, the table is the one the single call of
  \<^verbatim>\<open>get_devices\<close> built from the third argument: one record per segment that is non-empty
  after stripping, in parser order, duplicates kept. Every record owns a flag cell of its
  own (the pointers are pairwise different and each points into the heap), every flag
  holds true, and no thread exists yet. In every state the process can reach from there,
  by any interleaving of the main thread and the workers, the table is the same list of
  records and the heap has the same cells: only the values of the flags change.
\<close>

theorem device_table_created_once:
  assumes "main argv0 args = Running evs s0"
  shows "devices s0 = fst (get_devices (args ! 2) [])
    \<and> map name (devices s0) =
        filter (\<lambda>w. w \<noteq> []) (map strip_spaces_inplace (split_view CHR ''/'' (args ! 2)))
    \<and> distinct (map done_p (devices s0))
    \<and> length (flags s0) = length (devices s0)
    \<and> (\<forall>d \<in> set (devices s0). done_p d < length (flags s0) \<and> flags s0 ! done_p d = True)
    \<and> allthreads s0 = []
    \<and> (\<forall>s. step\<^sup>*\<^sup>* s0 s \<longrightarrow> devices s = devices s0 \<and> length (flags s) = length (flags s0))"
proof -
  from assms obtain t where
    s0: "s0 = \<lparr>adb_exe = args ! 0, sleep_time = word_of_int t,
               devices = fst (get_devices (args ! 2) []),
               flags = snd (get_devices (args ! 2) []),
               main_at = At_for (fst (get_devices (args ! 2) [])), allthreads = []\<rparr>"
    by (rule main_RunningE)
  let ?devs = "fst (get_devices (args ! 2) [])"
  have devs: "devices s0 = ?devs" and thr: "allthreads s0 = []"
    by (simp_all add: s0)
  have fl: "flags s0 = replicate (length ?devs) True"
    by (simp add: s0 get_devices_flags)
  have ptrs: "map done_p (devices s0) = [0..<length ?devs]"
    unfolding devs by (rule get_devices_done_p)
  have names: "map name (devices s0) =
        filter (\<lambda>w. w \<noteq> []) (map strip_spaces_inplace (split_view CHR ''/'' (args ! 2)))"
    unfolding devs by (rule get_devices_names)
  have dist: "distinct (map done_p (devices s0))"
    unfolding ptrs by simp
  have len: "length (flags s0) = length (devices s0)"
    by (simp add: fl devs)
  have idle: "done_p d < length (flags s0) \<and> flags s0 ! done_p d = True"
    if "d \<in> set (devices s0)" for d
  proof -
    from that have "done_p d \<in> set (map done_p (devices s0))"
      by simp
    then have "done_p d < length ?devs"
      unfolding ptrs by simp
    then show ?thesis
      by (simp add: fl)
  qed
  have fixed: "devices s = devices s0 \<and> length (flags s) = length (flags s0)"
    if "step\<^sup>*\<^sup>* s0 s" for s
    using steps_keep_table [OF that] by simp
  from devs names dist len idle thr fixed show ?thesis
    by blast
qed

theorem device_table_created_once_witness:
  "main ''main'' [''adb'', ''100'', ''x/x'']
     = Running [Stdout ''Devices:\<newline>'']
         \<lparr>adb_exe = ''adb'', sleep_time = 100,
          devices = [\<lparr>name = ''x'', done_p = 0\<rparr>, \<lparr>name = ''x'', done_p = 1\<rparr>],
          flags = [True, True],
          main_at = At_for [\<lparr>name = ''x'', done_p = 0\<rparr>, \<lparr>name = ''x'', done_p = 1\<rparr>],
          allthreads = []\<rparr>
   \<and> distinct (map done_p [\<lparr>name = ''x'', done_p = 0\<rparr>, \<lparr>name = ''x'', done_p = 1\<rparr>])
   \<and> [True, True] ! done_p \<lparr>name = ''x'', done_p = 1\<rparr> = True
   \<and> step \<lparr>adb_exe = ''adb'', sleep_time = 100,
          devices = [\<lparr>name = ''x'', done_p = 0\<rparr>, \<lparr>name = ''x'', done_p = 1\<rparr>],
          flags = [True, True],
          main_at = At_for [\<lparr>name = ''x'', done_p = 0\<rparr>, \<lparr>name = ''x'', done_p = 1\<rparr>],
          allthreads = []\<rparr>
        \<lparr>adb_exe = ''adb'', sleep_time = 100,
          devices = [\<lparr>name = ''x'', done_p = 0\<rparr>, \<lparr>name = ''x'', done_p = 1\<rparr>],
          flags = [True, True],
          main_at = At_if \<lparr>name = ''x'', done_p = 0\<rparr> [\<lparr>name = ''x'', done_p = 1\<rparr>],
          allthreads = []\<rparr>"
proof -
  let ?d0 = "\<lparr>name = ''x'', done_p = 0\<rparr>" and ?d1 = "\<lparr>name = ''x'', done_p = 1\<rparr>"
  let ?s0 = "\<lparr>adb_exe = ''adb'', sleep_time = 100, devices = [?d0, ?d1], flags = [True, True],
             main_at = At_for [?d0, ?d1], allthreads = []\<rparr>"
  let ?s1 = "\<lparr>adb_exe = ''adb'', sleep_time = 100, devices = [?d0, ?d1], flags = [True, True],
             main_at = At_if ?d0 [?d1], allthreads = []\<rparr>"
  have m: "main ''main'' [''adb'', ''100'', ''x/x''] = Running [Stdout ''Devices:\<newline>''] ?s0"
    by (simp add: main_def atoi_def isspace_def isdigit_def digit_value_def INT_MIN_def
        INT_MAX_def get_devices_def split_view_def strip_spaces_inplace_eq make_unique_def
        Let_def)
  note t = device_table_created_once [OF m]
  have "step ?s0 (?s0\<lparr>main_at := At_if ?d0 [?d1],
                       allthreads := allthreads ?s0 @ map (\<lambda>d. (d, At_store_false)) (started
                         [Stdout (name ?d0 @ [CHR 0x09]), Stdout (show_bool True @ [CHR 0x0A])])\<rparr>)"
    by (rule step.main_thread) simp
  then have st: "step ?s0 ?s1"
    by simp
  then have "step\<^sup>*\<^sup>* ?s0 ?s1"
    by (rule r_into_rtranclp)
  with t have "devices ?s1 = devices ?s0"
    by blast
  moreover from t have "distinct (map done_p (devices ?s0))"
    by blast
  moreover from t have "flags ?s0 ! done_p ?d1 = True"
    by simp
  ultimately show ?thesis
    using m st by simp
qed

section \<open>The worker\<close>

lemma systemthread_Returned: "systemthread adb stru rets Returned h = ([], Returned, h)"
  by (subst systemthread.simps) simp

lemma systemthread_At_store_true:
  "systemthread adb stru rets At_store_true h =
     ([Store (done_p stru) True], Returned, h[done_p stru := True])"
  by (subst systemthread.simps) (simp add: systemthread_Returned)

lemma systemthread_At_system_run_server:
  "systemthread adb stru rets At_system_run_server h =
     (case rets of
        [] \<Rightarrow> ([], At_system_run_server, h)
      | rc # rest \<Rightarrow>
          ([System_call (run_server adb stru) rc, Store (done_p stru) True], Returned,
           h[done_p stru := True]))"
  by (subst systemthread.simps) (simp add: systemthread_At_store_true split: list.splits)

lemma systemthread_At_system_connect:
  "systemthread adb stru rets At_system_connect h =
     (case rets of
        [] \<Rightarrow> ([], At_system_connect, h)
      | rc # rest \<Rightarrow>
          (case systemthread adb stru rest At_system_run_server h of
             (es, q, h') \<Rightarrow> (System_call (connect_cmd adb stru) rc # es, q, h')))"
  by (subst systemthread.simps) (simp split: list.splits)

lemma systemthread_At_store_false:
  "systemthread adb stru rets At_store_false h =
     (case systemthread adb stru rets At_system_connect (h[done_p stru := False]) of
        (es, q, h') \<Rightarrow> (Store (done_p stru) False # es, q, h'))"
  by (subst systemthread.simps) (simp split: list.splits)

lemmas systemthread_points =
  systemthread_At_store_false systemthread_At_system_connect systemthread_At_system_run_server

text \<open>
  C1. A worker bound to a record whose flag cell exists, run from its first statement.
  Its first event is the store of false (busy) to the flag of its record, before any
  external command. While the connect command has not returned the worker stands at that
  call, and while the run-test-server command has not returned it stands at this one; in
  both cases the flag it left is false. Once both commands have returned, whatever
  statuses \<open>rc1\<close> and \<open>rc2\<close> they returned, the worker has run connect, then the test
  server, then stored true (idle), and has returned: the store of true comes last and
  under no condition.
\<close>

theorem systemthread_flag_lifecycle:
  assumes "done_p stru < length h"
  shows "systemthread adb stru [] At_store_false h =
           ([Store (done_p stru) False], At_system_connect, h[done_p stru := False])
    \<and> systemthread adb stru [rc1] At_store_false h =
           ([Store (done_p stru) False, System_call (connect_cmd adb stru) rc1],
            At_system_run_server, h[done_p stru := False])
    \<and> systemthread adb stru (rc1 # rc2 # rest) At_store_false h =
           ([Store (done_p stru) False, System_call (connect_cmd adb stru) rc1,
             System_call (run_server adb stru) rc2, Store (done_p stru) True],
            Returned, h[done_p stru := True])
    \<and> (h[done_p stru := False]) ! done_p stru = False
    \<and> (h[done_p stru := True]) ! done_p stru = True"
proof (intro conjI)
  show "systemthread adb stru [] At_store_false h =
          ([Store (done_p stru) False], At_system_connect, h[done_p stru := False])"
    by (simp add: systemthread_points)
  show "systemthread adb stru [rc1] At_store_false h =
          ([Store (done_p stru) False, System_call (connect_cmd adb stru) rc1],
           At_system_run_server, h[done_p stru := False])"
    by (simp add: systemthread_points)
  show "systemthread adb stru (rc1 # rc2 # rest) At_store_false h =
          ([Store (done_p stru) False, System_call (connect_cmd adb stru) rc1,
            System_call (run_server adb stru) rc2, Store (done_p stru) True],
           Returned, h[done_p stru := True])"
    by (simp add: systemthread_points)
  from assms show "(h[done_p stru := False]) ! done_p stru = False"
    by simp
  from assms show "(h[done_p stru := True]) ! done_p stru = True"
    by simp
qed

theorem systemthread_flag_lifecycle_witness:
  "systemthread ''adb'' \<lparr>name = ''x'', done_p = 1\<rparr> [0, 1] At_store_false [True, True] =
     ([Store 1 False, System_call ''adb connect x'' 0,
       System_call (run_server ''adb'' \<lparr>name = ''x'', done_p = 1\<rparr>) 1, Store 1 True],
      Returned, [True, True])
   \<and> systemthread ''adb'' \<lparr>name = ''x'', done_p = 1\<rparr> [0] At_store_false [True, True] =
     ([Store 1 False, System_call ''adb connect x'' 0], At_system_run_server, [True, False])"
proof -
  have valid: "done_p \<lparr>name = ''x'', done_p = 1\<rparr> < length [True, True]"
    by simp
  note t = systemthread_flag_lifecycle [OF valid, of "''adb''" 0 1 "[]"]
  from t show ?thesis
    by (simp add: connect_cmd_def)
qed

lemma system_calls_systemthread:
  "system_calls (fst (systemthread adb stru (rc1 # rc2 # rest) At_store_false h)) =
     [connect_cmd adb stru, run_server adb stru]"
  by (simp add: systemthread_points)

text \<open>
  C5. After start-up \<^verbatim>\<open>adb_exe\<close> is the first command-line argument, in every state the
  process reaches. The commands a worker passes to \<^verbatim>\<open>system\<close> for a record are, in this
  order, the bridge tool followed by \<open>connect\<close> and the name, and the bridge tool followed by
  \<open>-s\<close>, the name and the instrumentation command line of the specification.
\<close>

theorem worker_commands:
  assumes "main argv0 args = Running evs s0"
  shows "system_calls (fst (systemthread (adb_exe s0) stru (rc1 # rc2 # rest) At_store_false h)) =
           [args ! 0 @ '' connect '' @ name stru,
            args ! 0 @ '' -s '' @ name stru @
              '' shell am instrument -w -r -e debug false -e class com.github.uiautomator.stub.Stub com.github.uiautomator.test/androidx.test.runner.AndroidJUnitRunner'']
    \<and> (\<forall>s. step\<^sup>*\<^sup>* s0 s \<longrightarrow> adb_exe s = args ! 0)"
proof -
  from assms have adb: "adb_exe s0 = args ! 0"
    by (rule main_RunningE) simp
  have "adb_exe s = args ! 0" if "step\<^sup>*\<^sup>* s0 s" for s
    using steps_keep_table [OF that] adb by simp
  moreover have "system_calls (fst (systemthread (adb_exe s0) stru (rc1 # rc2 # rest) At_store_false h))
      = [connect_cmd (args ! 0) stru, run_server (args ! 0) stru]"
    unfolding adb by (rule system_calls_systemthread)
  ultimately show ?thesis
    by (simp add: connect_cmd_def run_server_def)
qed

theorem worker_commands_witness:
  "system_calls (fst (systemthread ''/usr/bin/adb'' \<lparr>name = ''127.0.0.1:5555'', done_p = 0\<rparr>
        [0, 0] At_store_false [True])) =
     [''/usr/bin/adb connect 127.0.0.1:5555'',
      ''/usr/bin/adb -s 127.0.0.1:5555 shell am instrument -w -r -e debug false -e class com.github.uiautomator.stub.Stub com.github.uiautomator.test/androidx.test.runner.AndroidJUnitRunner'']"
proof -
  let ?d = "\<lparr>name = ''127.0.0.1:5555'', done_p = 0\<rparr>"
  let ?s0 = "\<lparr>adb_exe = ''/usr/bin/adb'', sleep_time = 5000, devices = [?d], flags = [True],
             main_at = At_for [?d], allthreads = []\<rparr>"
  have m: "main ''main'' [''/usr/bin/adb'', ''5000'', ''127.0.0.1:5555'']
             = Running [Stdout ''Devices:\<newline>''] ?s0"
    by (simp add: main_def atoi_def isspace_def isdigit_def digit_value_def INT_MIN_def
        INT_MAX_def get_devices_def split_view_def strip_spaces_inplace_eq make_unique_def
        Let_def)
  note t = worker_commands [OF m, of ?d 0 0 "[]" "[True]"]
  have "step\<^sup>*\<^sup>* ?s0 ?s0"
    by simp
  with t have "adb_exe ?s0 = [''/usr/bin/adb'', ''5000'', ''127.0.0.1:5555''] ! 0"
    by blast
  with t show ?thesis
    by simp
qed

section \<open>The supervisor loop\<close>

lemma main_exec_append:
  "main_exec t devs (hs1 @ hs2) p =
     (case main_exec t devs hs1 p of
        (es1, p1) \<Rightarrow> (case main_exec t devs hs2 p1 of (es2, q) \<Rightarrow> (es1 @ es2, q)))"
  by (induction hs1 arbitrary: p) (auto split: prod.splits)

lemma main_exec_records:
  "length reads = length ds \<Longrightarrow>
   main_exec t devs (concat (map (\<lambda>(h1, h2). [h1, h2]) reads)) (At_for ds) =
     (concat (map spec_scan_record (zip ds reads)), At_for [])"
proof (induction ds arbitrary: reads)
  case Nil
  then show ?case by simp
next
  case (Cons d ds)
  then obtain h1 h2 reads' where r: "reads = (h1, h2) # reads'" and l: "length reads' = length ds"
    by (cases reads) auto
  from Cons.IH [OF l] show ?case
    by (simp add: r spec_scan_record_def)
qed

lemma main_exec_iteration:
  assumes "length reads = length devs"
  shows "main_exec t devs (heaps_seen (reads, hz)) (At_for devs) =
           (spec_iteration t devs reads, At_for devs)"
  using main_exec_records [OF assms, of t devs]
  by (simp add: heaps_seen_def main_exec_append spec_iteration_def sleepcp_def)

lemma main_exec_iterations:
  assumes "\<forall>it \<in> set its. length (fst it) = length devs"
  shows "main_exec t devs (concat (map heaps_seen its)) (At_for devs) =
           (concat (map (\<lambda>it. spec_iteration t devs (fst it)) its), At_for devs)"
  using assms
proof (induction its)
  case Nil
  show ?case by simp
next
  case (Cons it its)
  obtain reads hz where it: "it = (reads, hz)"
    by (cases it)
  with Cons.prems have "length reads = length devs"
    by simp
  then have "main_exec t devs (heaps_seen it) (At_for devs) =
               (spec_iteration t devs reads, At_for devs)"
    unfolding it by (rule main_exec_iteration)
  moreover from Cons have "main_exec t devs (concat (map heaps_seen its)) (At_for devs) =
      (concat (map (\<lambda>it. spec_iteration t devs (fst it)) its), At_for devs)"
    by simp
  ultimately show ?case
    by (simp add: main_exec_append it)
qed

lemma step_main_At_if:
  assumes "main_at s = At_if d ds"
  shows "step s (s\<lparr>main_at := At_for ds,
                   allthreads := allthreads s @ (if flags s ! done_p d then [(d, At_store_false)] else [])\<rparr>)"
proof -
  have "main_step (sleep_time s) (devices s) (flags s) (main_at s) =
          ((if flags s ! done_p d then [Thread_start d] else []), At_for ds)"
    by (simp add: assms)
  from step.main_thread [OF this] show ?thesis
    by (cases "flags s ! done_p d") simp_all
qed

lemma step_main_always:
  "\<exists>s'. step s s' \<and> flags s' = flags s \<and> devices s' = devices s"
proof -
  obtain es p' where "main_step (sleep_time s) (devices s) (flags s) (main_at s) = (es, p')"
    by (cases "main_step (sleep_time s) (devices s) (flags s) (main_at s)")
  from step.main_thread [OF this]
  have "step s (s\<lparr>main_at := p',
                  allthreads := allthreads s @ map (\<lambda>d. (d, At_store_false)) (started es)\<rparr>)" .
  then show ?thesis
    by (rule exI [where P = "\<lambda>s'. step s s' \<and> flags s' = flags s \<and> devices s' = devices s",
          OF conjI]) simp
qed

text \<open>
  C2. One scan of the main thread, started at the head of the loop over a table of
  \<open>n\<close> records, whatever the flags hold each time it looks: for every record in table
  order it writes the name, a tab, the flag it loads and a line feed, then loads the flag
  again and starts one worker bound to that record exactly when this load gives idle;
  after the last record it calls \<^verbatim>\<open>sleepcp\<close> with the interval and stands at the head of
  the loop again. So any number of scans in a row each do the same and end at the head of
  the loop. In the process, the step at the \<^verbatim>\<open>if\<close> adds exactly one thread at its first
  statement when the flag reads idle and none otherwise, and the main thread has a step
  in every state (it writes no flag): the loop has no point where it ends.
\<close>

theorem supervisor_loop_scans_forever:
  "(length reads = length devs \<longrightarrow>
      main_exec t devs (heaps_seen (reads, hz)) (At_for devs) =
        (spec_iteration t devs reads, At_for devs))
   \<and> ((\<forall>it \<in> set its. length (fst it) = length devs) \<longrightarrow>
      main_exec t devs (concat (map heaps_seen its)) (At_for devs) =
        (concat (map (\<lambda>it. spec_iteration t devs (fst it)) its), At_for devs))
   \<and> (main_at s = At_if d ds \<longrightarrow>
      step s (s\<lparr>main_at := At_for ds,
               allthreads := allthreads s @ (if flags s ! done_p d then [(d, At_store_false)] else [])\<rparr>))
   \<and> (\<exists>s'. step s s' \<and> flags s' = flags s \<and> devices s' = devices s)"
proof (intro conjI impI)
  show "main_exec t devs (heaps_seen (reads, hz)) (At_for devs) =
          (spec_iteration t devs reads, At_for devs)"
    if "length reads = length devs"
    using that by (rule main_exec_iteration)
  show "main_exec t devs (concat (map heaps_seen its)) (At_for devs) =
          (concat (map (\<lambda>it. spec_iteration t devs (fst it)) its), At_for devs)"
    if "\<forall>it \<in> set its. length (fst it) = length devs"
    using that by (rule main_exec_iterations)
  show "step s (s\<lparr>main_at := At_for ds,
               allthreads := allthreads s @ (if flags s ! done_p d then [(d, At_store_false)] else [])\<rparr>)"
    if "main_at s = At_if d ds"
    using that by (rule step_main_At_if)
  show "\<exists>s'. step s s' \<and> flags s' = flags s \<and> devices s' = devices s"
    by (rule step_main_always)
qed


theorem supervisor_loop_scans_forever_witness:
  "main_exec 5000 [\<lparr>name = ''x'', done_p = 0\<rparr>, \<lparr>name = ''y'', done_p = 1\<rparr>]
     [[True, False], [True, False], [True, False], [True, False], [True, False]]
     (At_for [\<lparr>name = ''x'', done_p = 0\<rparr>, \<lparr>name = ''y'', done_p = 1\<rparr>])
   = ([Stdout [CHR ''x'', CHR 0x09], Stdout ''1\<newline>'', Thread_start \<lparr>name = ''x'', done_p = 0\<rparr>,
       Stdout [CHR ''y'', CHR 0x09], Stdout ''0\<newline>'', Usleep 5000000],
      At_for [\<lparr>name = ''x'', done_p = 0\<rparr>, \<lparr>name = ''y'', done_p = 1\<rparr>])
   \<and> main_exec 0 [\<lparr>name = ''x'', done_p = 0\<rparr>] [[True], [False], [False], [False], [True], [True]]
       (At_for [\<lparr>name = ''x'', done_p = 0\<rparr>])
     = ([Stdout [CHR ''x'', CHR 0x09], Stdout ''1\<newline>'', Usleep 0,
         Stdout [CHR ''x'', CHR 0x09], Stdout ''0\<newline>'', Thread_start \<lparr>name = ''x'', done_p = 0\<rparr>,
         Usleep 0],
        At_for [\<lparr>name = ''x'', done_p = 0\<rparr>])
   \<and> step \<lparr>adb_exe = ''adb'', sleep_time = 0, devices = [\<lparr>name = ''x'', done_p = 0\<rparr>],
            flags = [True], main_at = At_if \<lparr>name = ''x'', done_p = 0\<rparr> [], allthreads = []\<rparr>
          \<lparr>adb_exe = ''adb'', sleep_time = 0, devices = [\<lparr>name = ''x'', done_p = 0\<rparr>],
            flags = [True], main_at = At_for [],
            allthreads = [(\<lparr>name = ''x'', done_p = 0\<rparr>, At_store_false)]\<rparr>"
proof -
  let ?x = "\<lparr>name = ''x'', done_p = 0\<rparr>" and ?y = "\<lparr>name = ''y'', done_p = 1\<rparr>"
  let ?h = "[True, False]"
  let ?s = "\<lparr>adb_exe = ''adb'', sleep_time = 0, devices = [?x], flags = [True],
            main_at = At_if ?x [], allthreads = []\<rparr>"
  note t1 = supervisor_loop_scans_forever
              [of "[(?h, ?h), (?h, ?h)]" "[?x, ?y]" 5000 ?h "[]" ?s ?x "[]"]
  note t2 = supervisor_loop_scans_forever
              [of "[]" "[?x]" 0 "[]" "[([([True], [False])], [False]), ([([False], [True])], [True])]"
                  ?s ?x "[]"]
  from t1 have a: "main_exec 5000 [?x, ?y] (heaps_seen ([(?h, ?h), (?h, ?h)], ?h)) (At_for [?x, ?y])
      = (spec_iteration 5000 [?x, ?y] [(?h, ?h), (?h, ?h)], At_for [?x, ?y])"
    by simp
  from t2 have b: "main_exec 0 [?x]
        (concat (map heaps_seen [([([True], [False])], [False]), ([([False], [True])], [True])]))
        (At_for [?x])
      = (concat (map (\<lambda>it. spec_iteration 0 [?x] (fst it))
                  [([([True], [False])], [False]), ([([False], [True])], [True])]), At_for [?x])"
    by simp
  from t1 have c: "step ?s (?s\<lparr>main_at := At_for [],
        allthreads := allthreads ?s @ (if flags ?s ! done_p ?x then [(?x, At_store_false)] else [])\<rparr>)"
    by simp
  from a b c show ?thesis
    by (simp add: heaps_seen_def spec_iteration_def spec_scan_record_def show_bool_def)
qed

lemma stdout_text_append: "stdout_text (es @ fs) = stdout_text es @ stdout_text fs"
  by (induction es rule: stdout_text.induct) simp_all

lemma stdout_text_scan:
  "stdout_text (concat (map spec_scan_record zs)) =
     concat (map (\<lambda>(d, h1, h2). name d @ [CHR 0x09] @ (if h1 ! done_p d then ''1'' else ''0'')
                                  @ [CHR 0x0A]) zs)"
  by (induction zs) (auto simp: stdout_text_append spec_scan_record_def show_bool_def)

text \<open>
  C9. When start-up reaches the loop, the program has written the one line \<open>Devices:\<close> to
  standard output and nothing else, and stands at the head of the first scan with no
  thread started. The standard output of a scan is one line per record, the name and a
  tab followed by \<open>1\<close> when the flag loaded is true (idle) and \<open>0\<close> when it is false
  (busy): a \<^verbatim>\<open>bool\<close> is written as a numeral.
\<close>

theorem header_once_flags_as_numerals:
  "(main argv0 args = Running evs s0 \<longrightarrow>
      evs = [Stdout ''Devices:\<newline>''] \<and> main_at s0 = At_for (devices s0) \<and> allthreads s0 = [])
   \<and> (length reads = length devs \<longrightarrow>
        stdout_text (fst (main_exec t devs (heaps_seen (reads, hz)) (At_for devs))) =
          concat (map (\<lambda>(d, h1, h2). name d @ [CHR 0x09]
                         @ (if h1 ! done_p d then ''1'' else ''0'') @ [CHR 0x0A]) (zip devs reads)))
   \<and> show_bool True = ''1'' \<and> show_bool False = ''0''"
proof (intro conjI impI)
  assume m: "main argv0 args = Running evs s0"
  from m show "evs = [Stdout ''Devices:\<newline>'']"
    by (rule main_RunningE)
  from m show "main_at s0 = At_for (devices s0)"
    by (rule main_RunningE) simp
  from m show "allthreads s0 = []"
    by (rule main_RunningE) simp
next
  assume "length reads = length devs"
  then have "main_exec t devs (heaps_seen (reads, hz)) (At_for devs) =
               (spec_iteration t devs reads, At_for devs)"
    by (rule main_exec_iteration)
  then show "stdout_text (fst (main_exec t devs (heaps_seen (reads, hz)) (At_for devs))) =
          concat (map (\<lambda>(d, h1, h2). name d @ [CHR 0x09]
                         @ (if h1 ! done_p d then ''1'' else ''0'') @ [CHR 0x0A]) (zip devs reads))"
    by (simp add: spec_iteration_def stdout_text_append stdout_text_scan)
next
  show "show_bool True = ''1''" and "show_bool False = ''0''"
    by (simp_all add: show_bool_def)
qed

theorem header_once_flags_as_numerals_witness:
  "main ''main'' [''adb'', ''0'', ''x/y'']
     = Running [Stdout ''Devices:\<newline>'']
         \<lparr>adb_exe = ''adb'', sleep_time = 0,
          devices = [\<lparr>name = ''x'', done_p = 0\<rparr>, \<lparr>name = ''y'', done_p = 1\<rparr>],
          flags = [True, True],
          main_at = At_for [\<lparr>name = ''x'', done_p = 0\<rparr>, \<lparr>name = ''y'', done_p = 1\<rparr>],
          allthreads = []\<rparr>
   \<and> stdout_text (fst (main_exec 0 [\<lparr>name = ''x'', done_p = 0\<rparr>, \<lparr>name = ''y'', done_p = 1\<rparr>]
        [[True, False], [True, False], [True, False], [True, False], [True, False]]
        (At_for [\<lparr>name = ''x'', done_p = 0\<rparr>, \<lparr>name = ''y'', done_p = 1\<rparr>])))
     = [CHR ''x'', CHR 0x09, CHR ''1'', CHR 0x0A, CHR ''y'', CHR 0x09, CHR ''0'', CHR 0x0A]"
proof -
  let ?x = "\<lparr>name = ''x'', done_p = 0\<rparr>" and ?y = "\<lparr>name = ''y'', done_p = 1\<rparr>"
  let ?h = "[True, False]"
  let ?s0 = "\<lparr>adb_exe = ''adb'', sleep_time = 0, devices = [?x, ?y], flags = [True, True],
             main_at = At_for [?x, ?y], allthreads = []\<rparr>"
  have m: "main ''main'' [''adb'', ''0'', ''x/y''] = Running [Stdout ''Devices:\<newline>''] ?s0"
    by (simp add: main_def atoi_def isspace_def isdigit_def digit_value_def INT_MIN_def
        INT_MAX_def get_devices_def split_view_def strip_spaces_inplace_eq make_unique_def
        Let_def)
  note t = header_once_flags_as_numerals
             [of "''main''" "[''adb'', ''0'', ''x/y'']" "[Stdout ''Devices:\<newline>'']" ?s0
                 "[(?h, ?h), (?h, ?h)]" "[?x, ?y]" 0 ?h]
  from t have "stdout_text (fst (main_exec 0 [?x, ?y] (heaps_seen ([(?h, ?h), (?h, ?h)], ?h))
                  (At_for [?x, ?y])))
      = concat (map (\<lambda>(d, h1, h2). name d @ [CHR 0x09]
                         @ (if h1 ! done_p d then ''1'' else ''0'') @ [CHR 0x0A])
                 (zip [?x, ?y] [(?h, ?h), (?h, ?h)]))"
    by simp
  then have "stdout_text (fst (main_exec 0 [?x, ?y] [?h, ?h, ?h, ?h, ?h] (At_for [?x, ?y])))
      = [CHR ''x'', CHR 0x09, CHR ''1'', CHR 0x0A, CHR ''y'', CHR 0x09, CHR ''0'', CHR 0x0A]"
    by (simp add: heaps_seen_def)
  with m show ?thesis
    by simp
qed

section \<open>Two workers on one record\<close>

lemma main_print_step:
  assumes "main_at s = At_for (d # ds)"
  shows "\<exists>s'. step s s' \<and> main_at s' = At_if d ds \<and> flags s' = flags s
               \<and> devices s' = devices s \<and> allthreads s' = allthreads s"
proof -
  have "main_step (sleep_time s) (devices s) (flags s) (main_at s) =
          ([Stdout (name d @ [CHR 0x09]), Stdout (show_bool (flags s ! done_p d) @ [CHR 0x0A])],
           At_if d ds)"
    by (simp add: assms)
  from step.main_thread [OF this] show ?thesis
    by (intro exI [of _ "s\<lparr>main_at := At_if d ds\<rparr>"]) simp
qed

lemma main_if_step:
  assumes "main_at s = At_if d ds"
  shows "\<exists>s'. step s s' \<and> main_at s' = At_for ds \<and> flags s' = flags s
               \<and> devices s' = devices s
               \<and> allthreads s' =
                   allthreads s @ (if flags s ! done_p d then [(d, At_store_false)] else [])"
  using step_main_At_if [OF assms]
  by (intro exI [of _ "s\<lparr>main_at := At_for ds,
        allthreads := allthreads s @ (if flags s ! done_p d then [(d, At_store_false)] else [])\<rparr>"])
     simp

lemma main_sleep_step:
  assumes "main_at s = At_for []"
  shows "\<exists>s'. step s s' \<and> main_at s' = At_for (devices s) \<and> flags s' = flags s
               \<and> devices s' = devices s \<and> allthreads s' = allthreads s"
proof -
  have "main_step (sleep_time s) (devices s) (flags s) (main_at s) =
          (sleepcp (sleep_time s), At_for (devices s))"
    by (simp add: assms)
  from step.main_thread [OF this] show ?thesis
    by (intro exI [of _ "s\<lparr>main_at := At_for (devices s)\<rparr>"]) (simp add: sleepcp_def)
qed

lemma worker_entry_step:
  assumes "k < length (allthreads s)" and "allthreads s ! k = (d, At_store_false)"
  shows "\<exists>s'. step s s' \<and> main_at s' = main_at s \<and> devices s' = devices s
               \<and> allthreads s' = (allthreads s)[k := (d, At_system_connect)]"
proof -
  have "worker_step (adb_exe s) d 0 At_store_false (flags s) =
          Some (Store (done_p d) False, At_system_connect, (flags s)[done_p d := False])"
    by simp
  from step.worker_thread [OF assms this] show ?thesis
    by (intro exI [of _ "s\<lparr>flags := (flags s)[done_p d := False],
                            allthreads := (allthreads s)[k := (d, At_system_connect)]\<rparr>"]) simp
qed

lemma main_finishes_scan:
  "main_at s = At_for ds \<Longrightarrow>
   \<exists>s' extra. step\<^sup>*\<^sup>* s s' \<and> main_at s' = At_for [] \<and> flags s' = flags s
               \<and> devices s' = devices s \<and> allthreads s' = allthreads s @ extra"
proof (induction ds arbitrary: s)
  case Nil
  then show ?case by (intro exI [of _ s] exI [of _ "[]"]) simp
next
  case (Cons d ds)
  from main_print_step [OF Cons.prems] obtain s1 where
    s1: "step s s1" "main_at s1 = At_if d ds" "flags s1 = flags s" "devices s1 = devices s"
      "allthreads s1 = allthreads s"
    by blast
  from main_if_step [OF s1(2)] obtain s2 where
    s2: "step s1 s2" "main_at s2 = At_for ds" "flags s2 = flags s1" "devices s2 = devices s1"
      "allthreads s2 = allthreads s1 @ (if flags s1 ! done_p d then [(d, At_store_false)] else [])"
    by blast
  from Cons.IH [OF s2(2)] obtain s3 extra where
    s3: "step\<^sup>*\<^sup>* s2 s3" "main_at s3 = At_for []" "flags s3 = flags s2" "devices s3 = devices s2"
      "allthreads s3 = allthreads s2 @ extra"
    by blast
  from s1(1) s2(1) s3(1) have "step\<^sup>*\<^sup>* s s3"
    by (meson converse_rtranclp_into_rtranclp)
  moreover have "allthreads s3 =
      allthreads s @ ((if flags s1 ! done_p d then [(d, At_store_false)] else []) @ extra)"
    by (simp add: s3 s2 s1)
  ultimately show ?case
    using s1 s2 s3 by (intro exI [of _ s3] exI) simp
qed

text \<open>
  C8. The load of the flag by the main thread and the store of false by the worker it
  starts are two steps, and steps of other threads may come between them. Whenever
  start-up yields at least one record, the process can reach a state with two threads
  bound to the same record, both past their store of false and both about to call
  \<^verbatim>\<open>system\<close> with the connect command: the main thread starts a worker for the record,
  finishes the scan, sleeps, and in the next scan loads the flag before that worker has
  made its first step, so the flag still reads idle and a second worker is started. Each
  access to the flag is one atomic step all the same.
\<close>

theorem two_workers_on_one_record:
  assumes "main argv0 args = Running evs s0" and "devices s0 \<noteq> []"
  shows "\<exists>s i j. step\<^sup>*\<^sup>* s0 s \<and> i < j \<and> j < length (allthreads s)
           \<and> allthreads s ! i = (hd (devices s0), At_system_connect)
           \<and> allthreads s ! j = (hd (devices s0), At_system_connect)"
proof -
  from assms(2) obtain d ds where devs: "devices s0 = d # ds"
    by (cases "devices s0") auto
  from assms(1) obtain t where
    s0: "s0 = \<lparr>adb_exe = args ! 0, sleep_time = word_of_int t,
               devices = fst (get_devices (args ! 2) []),
               flags = snd (get_devices (args ! 2) []),
               main_at = At_for (fst (get_devices (args ! 2) [])), allthreads = []\<rparr>"
    by (rule main_RunningE)
  have at0: "main_at s0 = At_for (d # ds)" and thr0: "allthreads s0 = []"
    using devs by (simp_all add: s0)
  have "map done_p (devices s0) = [0..<length (devices s0)]"
    by (simp add: s0 get_devices_done_p)
  then have "done_p d = 0"
    by (simp add: devs upt_conv_Cons del: upt_Suc)
  moreover have "flags s0 = replicate (length (devices s0)) True"
    by (simp add: s0 get_devices_flags)
  ultimately have idle: "flags s0 ! done_p d"
    by (simp add: devs)
  \<comment> \<open>first scan: the record is idle, a worker is started, and it is not scheduled yet\<close>
  from main_print_step [OF at0] obtain s1 where
    s1: "step s0 s1" "main_at s1 = At_if d ds" "flags s1 = flags s0" "devices s1 = devices s0"
      "allthreads s1 = allthreads s0"
    by blast
  from main_if_step [OF s1(2)] obtain s2 where
    s2: "step s1 s2" "main_at s2 = At_for ds" "flags s2 = flags s1" "devices s2 = devices s1"
      "allthreads s2 = allthreads s1 @ (if flags s1 ! done_p d then [(d, At_store_false)] else [])"
    by blast
  from main_finishes_scan [OF s2(2)] obtain s3 extra where
    s3: "step\<^sup>*\<^sup>* s2 s3" "main_at s3 = At_for []" "flags s3 = flags s2" "devices s3 = devices s2"
      "allthreads s3 = allthreads s2 @ extra"
    by blast
  from main_sleep_step [OF s3(2)] obtain s4 where
    s4: "step s3 s4" "main_at s4 = At_for (devices s3)" "flags s4 = flags s3"
      "devices s4 = devices s3" "allthreads s4 = allthreads s3"
    by blast
  \<comment> \<open>second scan: the flag still reads idle, a second worker is started\<close>
  have at4: "main_at s4 = At_for (d # ds)"
    by (simp add: s4 s3 s2 s1 devs)
  from main_print_step [OF at4] obtain s5 where
    s5: "step s4 s5" "main_at s5 = At_if d ds" "flags s5 = flags s4" "devices s5 = devices s4"
      "allthreads s5 = allthreads s4"
    by blast
  from main_if_step [OF s5(2)] obtain s6 where
    s6: "step s5 s6" "main_at s6 = At_for ds" "flags s6 = flags s5" "devices s6 = devices s5"
      "allthreads s6 = allthreads s5 @ (if flags s5 ! done_p d then [(d, At_store_false)] else [])"
    by blast
  have thr6: "allthreads s6 = (d, At_store_false) # extra @ [(d, At_store_false)]"
    using idle by (simp add: s6 s5 s4 s3 s2 s1 thr0)
  \<comment> \<open>now both workers make their first step\<close>
  have "0 < length (allthreads s6)" and "allthreads s6 ! 0 = (d, At_store_false)"
    by (simp_all add: thr6)
  from worker_entry_step [OF this] obtain s7 where
    s7: "step s6 s7" "allthreads s7 = (allthreads s6)[0 := (d, At_system_connect)]"
    by blast
  let ?j = "Suc (length extra)"
  have thr7: "allthreads s7 = (d, At_system_connect) # extra @ [(d, At_store_false)]"
    by (simp add: s7 thr6)
  then have "?j < length (allthreads s7)" and "allthreads s7 ! ?j = (d, At_store_false)"
    by (simp_all add: nth_append)
  from worker_entry_step [OF this] obtain s8 where
    s8: "step s7 s8" "allthreads s8 = (allthreads s7)[?j := (d, At_system_connect)]"
    by blast
  have thr8: "allthreads s8 = (d, At_system_connect) # extra @ [(d, At_system_connect)]"
    by (simp add: s8 thr7)
  have "step\<^sup>*\<^sup>* s0 s2"
    using s1(1) s2(1) by (meson r_into_rtranclp rtranclp.rtrancl_into_rtrancl)
  also note s3(1)
  also have "step\<^sup>*\<^sup>* s3 s6"
    using s4(1) s5(1) s6(1) by (meson r_into_rtranclp rtranclp.rtrancl_into_rtrancl)
  also have "step\<^sup>*\<^sup>* s6 s8"
    using s7(1) s8(1) by (meson r_into_rtranclp rtranclp.rtrancl_into_rtrancl)
  finally have reach: "step\<^sup>*\<^sup>* s0 s8" .
  have "0 < ?j" and "?j < length (allthreads s8)"
    and "allthreads s8 ! 0 = (hd (devices s0), At_system_connect)"
    and "allthreads s8 ! ?j = (hd (devices s0), At_system_connect)"
    by (simp_all add: thr8 devs nth_append)
  with reach show ?thesis
    by blast
qed

theorem two_workers_on_one_record_witness:
  "\<exists>s i j. step\<^sup>*\<^sup>*
        \<lparr>adb_exe = ''adb'', sleep_time = 5000, devices = [\<lparr>name = ''x'', done_p = 0\<rparr>],
         flags = [True], main_at = At_for [\<lparr>name = ''x'', done_p = 0\<rparr>], allthreads = []\<rparr> s
      \<and> i < j \<and> j < length (allthreads s)
      \<and> allthreads s ! i = (\<lparr>name = ''x'', done_p = 0\<rparr>, At_system_connect)
      \<and> allthreads s ! j = (\<lparr>name = ''x'', done_p = 0\<rparr>, At_system_connect)"
proof -
  let ?x = "\<lparr>name = ''x'', done_p = 0\<rparr>"
  let ?s0 = "\<lparr>adb_exe = ''adb'', sleep_time = 5000, devices = [?x], flags = [True],
             main_at = At_for [?x], allthreads = []\<rparr>"
  have m: "main ''main'' [''adb'', ''5000'', ''x''] = Running [Stdout ''Devices:\<newline>''] ?s0"
    by (simp add: main_def atoi_def isspace_def isdigit_def digit_value_def INT_MIN_def
        INT_MAX_def get_devices_def split_view_def strip_spaces_inplace_eq make_unique_def
        Let_def)
  have ne: "devices ?s0 \<noteq> []"
    by simp
  from two_workers_on_one_record [OF m ne] show ?thesis
    by simp
qed

section \<open>The suspension between scans\<close>

lemma sint_times_1000:
  "sint (m * 1000 :: 32 word) = (sint m * 1000 + 2 ^ 31) mod 2 ^ 32 - 2 ^ 31"
proof -
  have "sint (m * 1000 :: 32 word) = signed_take_bit 31 (sint m * sint (1000 :: 32 word))"
    by (simp add: sint_word_ariths)
  also have "sint (1000 :: 32 word) = 1000"
    by simp
  finally show ?thesis
    by (simp add: signed_take_bit_eq_take_bit_shift take_bit_eq_mod)
qed

lemma sint_times_1000_exact:
  "sint (m * 1000 :: 32 word) = sint m * 1000 \<longleftrightarrow> - 2147483 \<le> sint m \<and> sint m \<le> 2147483"
proof -
  have "sint (m * 1000 :: 32 word) = signed_take_bit 31 (sint m * sint (1000 :: 32 word))"
    by (simp add: sint_word_ariths)
  also have "sint (1000 :: 32 word) = 1000"
    by simp
  finally have "sint (m * 1000 :: 32 word) = sint m * 1000
      \<longleftrightarrow> - (2 ^ 31) \<le> sint m * 1000 \<and> sint m * 1000 < 2 ^ 31"
    by (simp add: signed_take_bit_int_eq_self_iff)
  also have "\<dots> \<longleftrightarrow> - 2147483 \<le> sint m \<and> sint m \<le> 2147483"
    by auto
  finally show ?thesis .
qed

text \<open>
  C10. On a build without \<^verbatim>\<open>_WIN32\<close>, \<^verbatim>\<open>sleepcp m\<close> asks \<^verbatim>\<open>usleep\<close> for \<open>m * 1000\<close>
  microseconds, the product taken in 32 bits: read as a signed number it is
  \<open>m * 1000\<close> reduced modulo \<open>2^32\<close> into the range of \<^verbatim>\<open>int\<close>. It is a duration (not negative)
  of exactly \<open>m\<close> milliseconds if and only if \<open>0 \<le> m \<le> 2147483\<close>. For every larger \<open>m\<close> the
  true product is above \<^verbatim>\<open>INT_MAX\<close>, the multiplication overflows, and the signed value
  requested is not \<open>m * 1000\<close>.
\<close>

theorem sleepcp_microseconds:
  "sleepcp m = [Usleep (m * 1000)]
   \<and> sint (m * 1000) = (sint m * 1000 + 2 ^ 31) mod 2 ^ 32 - 2 ^ 31
   \<and> ((0 \<le> sint (m * 1000) \<and> sint (m * 1000) = sint m * 1000)
        \<longleftrightarrow> (0 \<le> sint m \<and> sint m \<le> 2147483))
   \<and> (2147483 < sint m \<longrightarrow> INT_MAX < sint m * 1000 \<and> sint (m * 1000) \<noteq> sint m * 1000)"
proof (intro conjI impI)
  show "sleepcp m = [Usleep (m * 1000)]"
    by (simp add: sleepcp_def)
  show "sint (m * 1000) = (sint m * 1000 + 2 ^ 31) mod 2 ^ 32 - 2 ^ 31"
    by (rule sint_times_1000)
  show "(0 \<le> sint (m * 1000) \<and> sint (m * 1000) = sint m * 1000)
          \<longleftrightarrow> (0 \<le> sint m \<and> sint m \<le> 2147483)"
    using sint_times_1000_exact [of m] by auto
  show "INT_MAX < sint m * 1000" if "2147483 < sint m"
    using that by (simp add: INT_MAX_def)
  show "sint (m * 1000) \<noteq> sint m * 1000" if "2147483 < sint m"
    using that sint_times_1000_exact [of m] by simp
qed

theorem sleepcp_microseconds_witness:
  "sleepcp 5000 = [Usleep 5000000] \<and> sint (5000000 :: 32 word) = sint (5000 :: 32 word) * 1000
   \<and> sleepcp 2147484 = [Usleep 2147484000]
   \<and> sint (2147484000 :: 32 word) = - 2147483296
   \<and> INT_MAX < sint (2147484 :: 32 word) * 1000"
proof -
  have small: "0 \<le> sint (5000 :: 32 word) \<and> sint (5000 :: 32 word) \<le> 2147483"
    by simp
  have large: "2147483 < sint (2147484 :: 32 word)"
    by simp
  note t1 = sleepcp_microseconds [of 5000] and t2 = sleepcp_microseconds [of 2147484]
  from t1 small have "sint (5000 * 1000 :: 32 word) = sint (5000 :: 32 word) * 1000"
    by blast
  moreover from t1 have "sleepcp 5000 = [Usleep (5000 * 1000)]"
    by blast
  moreover from t2 large have "INT_MAX < sint (2147484 :: 32 word) * 1000"
    by blast
  moreover from t2 have "sleepcp 2147484 = [Usleep (2147484 * 1000)]"
    by blast
  moreover from t2
  have "sint (2147484 * 1000 :: 32 word) = (sint (2147484 :: 32 word) * 1000 + 2 ^ 31) mod 2 ^ 32 - 2 ^ 31"
    by blast
  ultimately show ?thesis
    by simp
qed

section \<open>Too few arguments\<close>

lemma split_segments_line:
  "d \<notin> set a \<Longrightarrow> split_segments d (a @ d # rest) = a # split_segments d rest"
  by (induction a) auto

lemma lines_of_two:
  assumes "CHR 0x0A \<notin> set u" and "CHR 0x0A \<notin> set e"
  shows "lines_of (u @ [CHR 0x0A] @ e @ [CHR 0x0A]) = [u, e]"
proof -
  have "split_segments CHR 0x0A (u @ CHR 0x0A # (e @ CHR 0x0A # [])) =
          u # split_segments CHR 0x0A (e @ CHR 0x0A # [])"
    using assms(1) by (rule split_segments_line)
  also have "split_segments CHR 0x0A (e @ CHR 0x0A # []) = e # split_segments CHR 0x0A []"
    using assms(2) by (rule split_segments_line)
  finally show ?thesis
    by (simp add: lines_of_def)
qed

lemma main_usage:
  assumes "Suc (length args) < 4"
  shows "main argv0 args =
     Exit 1 [Stderr (''Usage: '' @ argv0 @
                     ''adbpath sleeptime ADBDEVICE/ADBDEVICE1/ADBDEVICE2 ...\<newline>''),
             Stderr (''Example: '' @ argv0 @
                     ''adb.exe 5000 127.0.0.1:5555/127.0.0.1:5570/127.0.0.1:5585/127.0.0.1:5590/127.0.0.1:5595\<newline>'')]"
  using assms by (simp add: main_def EXIT_FAILURE_def)

lemma main_usage_lines:
  assumes "Suc (length args) < 4" and "CHR 0x0A \<notin> set argv0"
  shows "lines_of (stderr_text (written (main argv0 args))) =
     [''Usage: '' @ argv0 @ ''adbpath sleeptime ADBDEVICE/ADBDEVICE1/ADBDEVICE2 ...'',
      ''Example: '' @ argv0 @
        ''adb.exe 5000 127.0.0.1:5555/127.0.0.1:5570/127.0.0.1:5585/127.0.0.1:5590/127.0.0.1:5595'']"
proof -
  let ?u = "''Usage: '' @ argv0 @ ''adbpath sleeptime ADBDEVICE/ADBDEVICE1/ADBDEVICE2 ...''"
  let ?e = "''Example: '' @ argv0 @
        ''adb.exe 5000 127.0.0.1:5555/127.0.0.1:5570/127.0.0.1:5585/127.0.0.1:5590/127.0.0.1:5595''"
  have t: "stderr_text (written (main argv0 args)) = ?u @ [CHR 0x0A] @ ?e @ [CHR 0x0A]"
    by (simp add: main_usage [OF assms(1)])
  have "CHR 0x0A \<notin> set ?u" and "CHR 0x0A \<notin> set ?e"
    using assms(2) by simp_all
  then have l: "lines_of (?u @ [CHR 0x0A] @ ?e @ [CHR 0x0A]) = [?u, ?e]"
    by (rule lines_of_two)
  show ?thesis
    by (simp only: t l)
qed

lemma main_no_exit:
  assumes "4 \<le> Suc (length args)"
  shows "main argv0 args \<noteq> Exit c es"
  using assms by (auto simp: main_def split: option.splits prod.splits)

text \<open>
  C6, as stated, has the program print the usage and two example lines. Called with no
  argument it prints two lines in all, and one of them is an example line.
\<close>

theorem usage_error_exit_counterexample:
  "length (filter is_example_line (lines_of (stderr_text (written (main ''main'' []))))) \<noteq> 2
   \<and> length (lines_of (stderr_text (written (main ''main'' [])))) \<noteq> 3"
proof -
  have "lines_of (stderr_text (written (main ''main'' []))) =
     [''Usage: '' @ ''main'' @ ''adbpath sleeptime ADBDEVICE/ADBDEVICE1/ADBDEVICE2 ...'',
      ''Example: '' @ ''main'' @
        ''adb.exe 5000 127.0.0.1:5555/127.0.0.1:5570/127.0.0.1:5585/127.0.0.1:5590/127.0.0.1:5595'']"
    by (rule main_usage_lines) simp_all
  then show ?thesis
    by (simp add: is_example_line_def)
qed

text \<open>
  C6, amended. With an argument count below 4 the program writes to standard error the
  usage line and one example line, each made of a fixed text around \<^verbatim>\<open>argv[0]\<close>, and
  exits with status 1; it has done nothing else by then, so no record exists and no worker
  has been started. With an argument count of 4 or more it never takes this exit,
  whatever the arguments are.
\<close>

theorem usage_error_exit:
  "(Suc (length args) < 4 \<longrightarrow>
      main argv0 args =
        Exit 1 [Stderr (''Usage: '' @ argv0 @
                        ''adbpath sleeptime ADBDEVICE/ADBDEVICE1/ADBDEVICE2 ...\<newline>''),
                Stderr (''Example: '' @ argv0 @
                        ''adb.exe 5000 127.0.0.1:5555/127.0.0.1:5570/127.0.0.1:5585/127.0.0.1:5590/127.0.0.1:5595\<newline>'')])
   \<and> (Suc (length args) < 4 \<and> CHR 0x0A \<notin> set argv0 \<longrightarrow>
        lines_of (stderr_text (written (main argv0 args))) =
          [''Usage: '' @ argv0 @ ''adbpath sleeptime ADBDEVICE/ADBDEVICE1/ADBDEVICE2 ...'',
           ''Example: '' @ argv0 @
             ''adb.exe 5000 127.0.0.1:5555/127.0.0.1:5570/127.0.0.1:5585/127.0.0.1:5590/127.0.0.1:5595'']
        \<and> length (filter is_example_line (lines_of (stderr_text (written (main argv0 args))))) = 1)
   \<and> (4 \<le> Suc (length args) \<longrightarrow> (\<forall>c es. main argv0 args \<noteq> Exit c es))"
proof (intro conjI impI allI)
  show "main argv0 args =
        Exit 1 [Stderr (''Usage: '' @ argv0 @
                        ''adbpath sleeptime ADBDEVICE/ADBDEVICE1/ADBDEVICE2 ...\<newline>''),
                Stderr (''Example: '' @ argv0 @
                        ''adb.exe 5000 127.0.0.1:5555/127.0.0.1:5570/127.0.0.1:5585/127.0.0.1:5590/127.0.0.1:5595\<newline>'')]"
    if "Suc (length args) < 4"
    using that by (rule main_usage)
next
  assume a: "Suc (length args) < 4 \<and> CHR 0x0A \<notin> set argv0"
  then show l: "lines_of (stderr_text (written (main argv0 args))) =
          [''Usage: '' @ argv0 @ ''adbpath sleeptime ADBDEVICE/ADBDEVICE1/ADBDEVICE2 ...'',
           ''Example: '' @ argv0 @
             ''adb.exe 5000 127.0.0.1:5555/127.0.0.1:5570/127.0.0.1:5585/127.0.0.1:5590/127.0.0.1:5595'']"
    by (intro main_usage_lines) simp_all
  show "length (filter is_example_line (lines_of (stderr_text (written (main argv0 args))))) = 1"
    unfolding l by (simp add: is_example_line_def)
next
  show "main argv0 args \<noteq> Exit c es" if "4 \<le> Suc (length args)" for c es
    using that by (rule main_no_exit)
qed

theorem usage_error_exit_witness:
  "main ''main'' [''adb'', ''5000''] =
     Exit 1 [Stderr ''Usage: mainadbpath sleeptime ADBDEVICE/ADBDEVICE1/ADBDEVICE2 ...\<newline>'',
             Stderr ''Example: mainadb.exe 5000 127.0.0.1:5555/127.0.0.1:5570/127.0.0.1:5585/127.0.0.1:5590/127.0.0.1:5595\<newline>'']
   \<and> length (filter is_example_line (lines_of (stderr_text (written (main ''main'' [''adb'', ''5000''])))))
       = 1
   \<and> main ''main'' [''adb'', ''abc'', ''''] \<noteq> Exit 1 []"
proof -
  have few: "Suc (length [''adb'', ''5000'']) < 4" and nl: "CHR 0x0A \<notin> set ''main''"
    and enough: "4 \<le> Suc (length [''adb'', ''abc'', ''''])"
    by simp_all
  note t1 = usage_error_exit [of "[''adb'', ''5000'']" "''main''"]
    and t2 = usage_error_exit [of "[''adb'', ''abc'', '''']" "''main''"]
  from t1 few have "main ''main'' [''adb'', ''5000''] =
     Exit 1 [Stderr (''Usage: '' @ ''main'' @
                     ''adbpath sleeptime ADBDEVICE/ADBDEVICE1/ADBDEVICE2 ...\<newline>''),
             Stderr (''Example: '' @ ''main'' @
                     ''adb.exe 5000 127.0.0.1:5555/127.0.0.1:5570/127.0.0.1:5585/127.0.0.1:5590/127.0.0.1:5595\<newline>'')]"
    by blast
  moreover from t1 few nl
  have "length (filter is_example_line
          (lines_of (stderr_text (written (main ''main'' [''adb'', ''5000''])))))  = 1"
    by blast
  moreover from t2 enough have "main ''main'' [''adb'', ''abc'', ''''] \<noteq> Exit 1 []"
    by blast
  ultimately show ?thesis
    by simp
qed

section \<open>Decoding the interval\<close>

lemma isdigit_not_isspace: "isdigit c \<Longrightarrow> \<not> isspace c"
  by (auto simp: isdigit_def isspace_def)

lemma isdigit_not_sign: "isdigit c \<Longrightarrow> c \<noteq> CHR ''+'' \<and> c \<noteq> CHR ''-''"
  by (auto simp: isdigit_def)

lemma foldl_decimal:
  "foldl (\<lambda>acc ch. 10 * acc + f ch) a ds = a * 10 ^ length ds + horner_sum f (10 :: int) (rev ds)"
  by (induction ds arbitrary: a) (simp_all add: horner_sum_append algebra_simps)

lemma takeWhile_digits:
  assumes "list_all isdigit ds" and "rest = [] \<or> \<not> isdigit (hd rest)"
  shows "takeWhile isdigit (ds @ rest) = ds"
proof -
  from assms(2) have "takeWhile isdigit rest = []"
    by (simp add: takeWhile_eq_Nil_iff)
  with assms(1) show ?thesis
    by (simp add: list_all_iff)
qed

lemma atoi_skips_spaces:
  assumes "list_all isspace ws"
  shows "atoi (ws @ s) = atoi s"
proof -
  from assms have "dropWhile isspace (ws @ s) = dropWhile isspace s"
    by (simp add: list_all_iff)
  then show ?thesis
    by (simp add: atoi_def)
qed

lemma atoi_unsigned:
  assumes "list_all isdigit ds" and "rest = [] \<or> \<not> isdigit (hd rest)"
    and "ds = [] \<longrightarrow> rest = [] \<or> (\<not> isspace (hd rest) \<and> hd rest \<noteq> CHR ''+'' \<and> hd rest \<noteq> CHR ''-'')"
    and "horner_sum digit_value 10 (rev ds) \<le> INT_MAX"
    and "INT_MIN \<le> horner_sum digit_value 10 (rev ds)"
  shows "atoi (ds @ rest) = Some (horner_sum digit_value 10 (rev ds))"
proof -
  let ?s = "ds @ rest"
  have first: "?s = [] \<or> (\<not> isspace (hd ?s) \<and> hd ?s \<noteq> CHR ''+'' \<and> hd ?s \<noteq> CHR ''-'')"
  proof (cases ds)
    case Nil
    with assms(3) show ?thesis by simp
  next
    case (Cons c cs)
    with assms(1) have "isdigit c" by simp
    with Cons show ?thesis
      by (simp add: isdigit_not_isspace isdigit_not_sign)
  qed
  then have "dropWhile isspace ?s = ?s"
    by (auto simp: dropWhile_eq_self_iff)
  moreover have "takeWhile isdigit ?s = ds"
    using assms(1,2) by (rule takeWhile_digits)
  ultimately show ?thesis
    using first assms(4,5) by (auto simp: atoi_def Let_def foldl_decimal)
qed

lemma atoi_plus:
  assumes "list_all isdigit ds" and "rest = [] \<or> \<not> isdigit (hd rest)"
    and "horner_sum digit_value 10 (rev ds) \<le> INT_MAX"
    and "INT_MIN \<le> horner_sum digit_value 10 (rev ds)"
  shows "atoi (CHR ''+'' # ds @ rest) = Some (horner_sum digit_value 10 (rev ds))"
proof -
  have "dropWhile isspace (CHR ''+'' # ds @ rest) = CHR ''+'' # ds @ rest"
    by (simp add: isspace_def)
  moreover have "takeWhile isdigit (ds @ rest) = ds"
    using assms(1,2) by (rule takeWhile_digits)
  ultimately show ?thesis
    using assms(3,4) by (simp add: atoi_def Let_def foldl_decimal)
qed

lemma atoi_minus:
  assumes "list_all isdigit ds" and "rest = [] \<or> \<not> isdigit (hd rest)"
    and "- horner_sum digit_value 10 (rev ds) \<le> INT_MAX"
    and "INT_MIN \<le> - horner_sum digit_value 10 (rev ds)"
  shows "atoi (CHR ''-'' # ds @ rest) = Some (- horner_sum digit_value 10 (rev ds))"
proof -
  have "dropWhile isspace (CHR ''-'' # ds @ rest) = CHR ''-'' # ds @ rest"
    by (simp add: isspace_def)
  moreover have "takeWhile isdigit (ds @ rest) = ds"
    using assms(1,2) by (rule takeWhile_digits)
  ultimately show ?thesis
    using assms(3,4) by (simp add: atoi_def Let_def foldl_decimal)
qed

lemma atoi_number:
  assumes "list_all isspace ws" and "sg \<in> {[], ''+'', ''-''}"
    and "list_all isdigit ds" and "rest = [] \<or> \<not> isdigit (hd rest)"
    and "sg = [] \<and> ds = [] \<longrightarrow>
           rest = [] \<or> (\<not> isspace (hd rest) \<and> hd rest \<noteq> CHR ''+'' \<and> hd rest \<noteq> CHR ''-'')"
    and "INT_MIN \<le> (if sg = ''-'' then - 1 else 1) * horner_sum digit_value 10 (rev ds)"
    and "(if sg = ''-'' then - 1 else 1) * horner_sum digit_value 10 (rev ds) \<le> INT_MAX"
  shows "atoi (ws @ sg @ ds @ rest) =
           Some ((if sg = ''-'' then - 1 else 1) * horner_sum digit_value 10 (rev ds))"
proof -
  have "atoi (sg @ ds @ rest) =
          Some ((if sg = ''-'' then - 1 else 1) * horner_sum digit_value 10 (rev ds))"
  proof -
    consider "sg = []" | "sg = ''+''" | "sg = ''-''"
      using assms(2) by auto
    then show ?thesis
    proof cases
      case 1
      with assms(3-7) show ?thesis
        by (simp add: atoi_unsigned)
    next
      case 2
      with assms(3-7) show ?thesis
        by (simp add: atoi_plus)
    next
      case 3
      with assms(3-7) show ?thesis
        by (simp add: atoi_minus)
    qed
  qed
  with assms(1) show ?thesis
    by (simp add: atoi_skips_spaces)
qed

lemma atoi_in_range: "atoi s = Some t \<Longrightarrow> INT_MIN \<le> t \<and> t \<le> INT_MAX"
  by (auto simp: atoi_def Let_def split: if_splits)

lemma atoi_spec_valid:
  assumes "spec_valid_number s"
    and "INT_MIN \<le> spec_number_value s" and "spec_number_value s \<le> INT_MAX"
  shows "atoi s = Some (spec_number_value s)"
proof -
  let ?ds = "spec_digits s"
  from assms(1) have ds: "?ds \<noteq> []" "list_all isdigit ?ds"
    by (simp_all add: spec_valid_number_def)
  define sg where "sg = (if s \<noteq> [] \<and> (hd s = CHR ''-'' \<or> hd s = CHR ''+'') then [hd s] else [])"
  have s: "s = sg @ ?ds"
    by (cases s) (auto simp: sg_def spec_digits_def)
  have sg: "sg \<in> {[], ''+'', ''-''}"
    by (auto simp: sg_def)
  have hd_digit: "isdigit (hd ?ds)"
    using ds by (cases ?ds) auto
  have neg: "(s \<noteq> [] \<and> hd s = CHR ''-'') \<longleftrightarrow> sg = ''-''"
  proof (cases "sg = []")
    case True
    with s ds hd_digit show ?thesis
      by (auto dest: isdigit_not_sign)
  next
    case False
    with s show ?thesis
      by (cases s) (auto simp: sg_def split: if_splits)
  qed
  have v: "spec_number_value s = (if sg = ''-'' then - 1 else 1) * horner_sum digit_value 10 (rev ?ds)"
    unfolding spec_number_value_def neg ..
  have "atoi ([] @ sg @ ?ds @ []) =
          Some ((if sg = ''-'' then - 1 else 1) * horner_sum digit_value 10 (rev ?ds))"
    using assms(2,3) ds sg unfolding v by (intro atoi_number) simp_all
  with s v show ?thesis
    by simp
qed


text \<open>
  C7, as stated, decodes every invalid string to 0. The string \<open>12abc\<close> is not a valid
  number and the specification's decoding of it is 0, but \<^verbatim>\<open>atoi\<close> converts the digits
  it starts with and the program runs with an interval of 12. For a number outside the
  range of \<^verbatim>\<open>int\<close>, such as \<open>99999999999\<close>, the C standard leaves the result of \<^verbatim>\<open>atoi\<close>
  undefined: nothing makes it 0.
\<close>

theorem atoi_decodes_counterexample:
  "\<not> spec_valid_number ''12abc'' \<and> spec_interval ''12abc'' = 0 \<and> atoi ''12abc'' = Some 12
   \<and> spec_interval ''99999999999'' = 0 \<and> atoi ''99999999999'' = None
   \<and> main ''main'' [''adb'', ''12abc'', ''x'']
       = Running [Stdout ''Devices:\<newline>'']
           \<lparr>adb_exe = ''adb'', sleep_time = 12, devices = [\<lparr>name = ''x'', done_p = 0\<rparr>],
            flags = [True], main_at = At_for [\<lparr>name = ''x'', done_p = 0\<rparr>], allthreads = []\<rparr>"
proof (intro conjI)
  show "\<not> spec_valid_number ''12abc''"
    by (simp add: spec_valid_number_def spec_digits_def isdigit_def)
  show "spec_interval ''12abc'' = 0"
    by (simp add: spec_interval_def spec_valid_number_def spec_digits_def isdigit_def)
  show a: "atoi ''12abc'' = Some 12"
    by (simp add: atoi_def isspace_def isdigit_def digit_value_def INT_MIN_def INT_MAX_def)
  show "spec_interval ''99999999999'' = 0"
    by (simp add: spec_interval_def spec_valid_number_def spec_digits_def spec_number_value_def
        isdigit_def digit_value_def INT_MAX_def)
  show "atoi ''99999999999'' = None"
    by (simp add: atoi_def isspace_def isdigit_def digit_value_def INT_MIN_def INT_MAX_def)
  show "main ''main'' [''adb'', ''12abc'', ''x'']
       = Running [Stdout ''Devices:\<newline>'']
           \<lparr>adb_exe = ''adb'', sleep_time = 12, devices = [\<lparr>name = ''x'', done_p = 0\<rparr>],
            flags = [True], main_at = At_for [\<lparr>name = ''x'', done_p = 0\<rparr>], allthreads = []\<rparr>"
    by (simp add: main_def a get_devices_def split_view_def strip_spaces_inplace_eq isspace_def
        make_unique_def Let_def)
qed

text \<open>
  C7, amended. The interval is decoded by \<^verbatim>\<open>atoi\<close> as a base-10 integer. A valid number
  (an optional sign and one or more digits) in the range of \<^verbatim>\<open>int\<close> decodes to its exact
  value. More generally leading white space is skipped, an optional sign and the digits
  that follow are converted, and whatever comes after the digits is ignored, as long as
  the value is in range. The value is 0 when no digit follows the white space and the
  optional sign. When start-up reaches the loop, the interval of the process is the value
  \<^verbatim>\<open>atoi\<close> gave for the second argument. Nothing is said about values out of range.
\<close>

theorem atoi_decodes:
  "(spec_valid_number s \<and> INT_MIN \<le> spec_number_value s \<and> spec_number_value s \<le> INT_MAX \<longrightarrow>
      atoi s = Some (spec_number_value s) \<and> atoi s = Some (spec_interval s))
   \<and> (list_all isspace ws \<and> sg \<in> {[], ''+'', ''-''} \<and> list_all isdigit ds
       \<and> (rest = [] \<or> \<not> isdigit (hd rest))
       \<and> (sg = [] \<and> ds = [] \<longrightarrow>
             rest = [] \<or> (\<not> isspace (hd rest) \<and> hd rest \<noteq> CHR ''+'' \<and> hd rest \<noteq> CHR ''-''))
       \<and> INT_MIN \<le> (if sg = ''-'' then - 1 else 1) * horner_sum digit_value 10 (rev ds)
       \<and> (if sg = ''-'' then - 1 else 1) * horner_sum digit_value 10 (rev ds) \<le> INT_MAX \<longrightarrow>
      atoi (ws @ sg @ ds @ rest) =
        Some ((if sg = ''-'' then - 1 else 1) * horner_sum digit_value 10 (rev ds))
      \<and> (ds = [] \<longrightarrow> atoi (ws @ sg @ rest) = Some 0))
   \<and> (main argv0 args = Running evs s0 \<longrightarrow>
        (\<exists>t. atoi (args ! 1) = Some t \<and> sleep_time s0 = word_of_int t \<and> sint (sleep_time s0) = t))"
proof (intro conjI impI)
  assume a: "spec_valid_number s \<and> INT_MIN \<le> spec_number_value s \<and> spec_number_value s \<le> INT_MAX"
  then show "atoi s = Some (spec_number_value s)"
    by (intro atoi_spec_valid) simp_all
  with a show "atoi s = Some (spec_interval s)"
    by (simp add: spec_interval_def)
next
  assume a: "list_all isspace ws \<and> sg \<in> {[], ''+'', ''-''} \<and> list_all isdigit ds
       \<and> (rest = [] \<or> \<not> isdigit (hd rest))
       \<and> (sg = [] \<and> ds = [] \<longrightarrow>
             rest = [] \<or> (\<not> isspace (hd rest) \<and> hd rest \<noteq> CHR ''+'' \<and> hd rest \<noteq> CHR ''-''))
       \<and> INT_MIN \<le> (if sg = ''-'' then - 1 else 1) * horner_sum digit_value 10 (rev ds)
       \<and> (if sg = ''-'' then - 1 else 1) * horner_sum digit_value 10 (rev ds) \<le> INT_MAX"
  then show n: "atoi (ws @ sg @ ds @ rest) =
        Some ((if sg = ''-'' then - 1 else 1) * horner_sum digit_value 10 (rev ds))"
    by (intro atoi_number) simp_all
  show "atoi (ws @ sg @ rest) = Some 0" if "ds = []"
    using n that by simp
next
  assume m: "main argv0 args = Running evs s0"
  then obtain t where t: "atoi (args ! 1) = Some t" and s: "sleep_time s0 = word_of_int t"
    by (rule main_RunningE) simp
  from atoi_in_range [OF t] have "- (2 ^ 31) \<le> t \<and> t < 2 ^ 31"
    by (simp add: INT_MIN_def INT_MAX_def)
  then have "sint (word_of_int t :: 32 word) = t"
    by (simp add: signed_of_int signed_take_bit_int_eq_self_iff)
  with t s show "\<exists>t. atoi (args ! 1) = Some t \<and> sleep_time s0 = word_of_int t \<and> sint (sleep_time s0) = t"
    by simp
qed

theorem atoi_decodes_witness:
  "atoi ''-5000'' = Some (- 5000) \<and> atoi ''  +42 ms'' = Some 42 \<and> atoi ''abc'' = Some 0
   \<and> atoi ''5000'' = Some 5000
   \<and> sint (sleep_time \<lparr>adb_exe = ''adb'', sleep_time = 5000, devices = [], flags = [],
                        main_at = At_for [], allthreads = []\<rparr>) = 5000"
proof -
  let ?s0 = "\<lparr>adb_exe = ''adb'', sleep_time = 5000, devices = [], flags = [],
             main_at = At_for [], allthreads = []\<rparr>"
  have valid: "spec_valid_number ''-5000'' \<and> INT_MIN \<le> spec_number_value ''-5000''
      \<and> spec_number_value ''-5000'' \<le> INT_MAX"
    by (simp add: spec_valid_number_def spec_number_value_def spec_digits_def isdigit_def
        digit_value_def INT_MIN_def INT_MAX_def)
  have exact: "spec_number_value ''-5000'' = - 5000"
    by (simp add: spec_number_value_def spec_digits_def digit_value_def)
  note t1 = atoi_decodes [of "''-5000''" "[]" "[]" "[]" "[]" "''main''" "[]" "[]" ?s0]
  from t1 valid exact have a: "atoi ''-5000'' = Some (- 5000)"
    by simp
  have junk: "list_all isspace ''  '' \<and> ''+'' \<in> {[], ''+'', ''-''} \<and> list_all isdigit ''42''
       \<and> ('' ms'' = [] \<or> \<not> isdigit (hd '' ms''))
       \<and> INT_MIN \<le> (if ''+'' = ''-'' then - 1 else 1) * horner_sum digit_value 10 (rev ''42'')
       \<and> (if ''+'' = ''-'' then - 1 else 1) * horner_sum digit_value 10 (rev ''42'') \<le> INT_MAX"
    by (simp add: isspace_def isdigit_def digit_value_def INT_MIN_def INT_MAX_def)
  note t2 = atoi_decodes [of "[]" "''  ''" "''+''" "''42''" "'' ms''" "''main''" "[]" "[]" ?s0]
  from t2 junk have "atoi (''  '' @ ''+'' @ ''42'' @ '' ms'') =
      Some ((if ''+'' = ''-'' then - 1 else 1) * horner_sum digit_value 10 (rev ''42''))"
    by simp
  then have b: "atoi ''  +42 ms'' = Some 42"
    by (simp add: digit_value_def)
  have none: "list_all isspace [] \<and> [] \<in> {[], ''+'', ''-''} \<and> list_all isdigit []
       \<and> (''abc'' = [] \<or> \<not> isdigit (hd ''abc''))
       \<and> ([] = [] \<and> [] = [] \<longrightarrow>
             ''abc'' = [] \<or> (\<not> isspace (hd ''abc'') \<and> hd ''abc'' \<noteq> CHR ''+'' \<and> hd ''abc'' \<noteq> CHR ''-''))
       \<and> INT_MIN \<le> (if [] = ''-'' then - 1 else 1) * horner_sum digit_value 10 (rev [])
       \<and> (if [] = ''-'' then - 1 else 1) * horner_sum digit_value 10 (rev []) \<le> INT_MAX"
    by (simp add: isspace_def isdigit_def INT_MIN_def INT_MAX_def)
  note t3 = atoi_decodes [of "[]" "[]" "[]" "[]" "''abc''" "''main''" "[]" "[]" ?s0]
  from t3 none have c: "atoi ''abc'' = Some 0"
    by simp
  have m: "main ''main'' [''adb'', ''5000'', []] = Running [Stdout ''Devices:\<newline>''] ?s0"
    by (simp add: main_def atoi_def isspace_def isdigit_def digit_value_def INT_MIN_def
        INT_MAX_def get_devices_def split_view_def)
  note t4 = atoi_decodes
              [of "[]" "[]" "[]" "[]" "[]" "''main''" "[''adb'', ''5000'', []]"
                  "[Stdout ''Devices:\<newline>'']" ?s0]
  from t4 m obtain t where "atoi ([''adb'', ''5000'', []] ! 1) = Some t"
    and "sint (sleep_time ?s0) = t"
    by blast
  then have d: "atoi ''5000'' = Some 5000 \<and> sint (sleep_time ?s0) = 5000"
    by simp
  from a b c d show ?thesis
    by simp
qed

end
